theory Spec2Isabelle
  imports Main "HOL-Library.Char_ord" "HOL-Library.List_Lexorder"
begin

section \<open>SnapBackup: snapshot backups with rsync and hard links\<close>

text \<open>
  A shallow embedding of \<^verbatim>\<open>src/snapback.py\<close>. Python strings are \<open>string\<close>,
  Python integers are \<open>int\<close>, \<^verbatim>\<open>sorted\<close> on strings is \<open>sort\<close> with the
  lexicographic order on character lists, and the operating system is an explicit
  state that every function receives and returns.
\<close>

subsection \<open>String helpers of the Python library\<close>

text \<open>\<^verbatim>\<open>s.rstrip(chars)\<close>: drop every trailing character that occurs in \<open>chars\<close>.\<close>

definition rstrip :: "string \<Rightarrow> string \<Rightarrow> string" where
  "rstrip s chars = rev (dropWhile (\<lambda>c. c \<in> set chars) (rev s))"

text \<open>\<^verbatim>\<open>os.path.join(a, b)\<close> of \<^verbatim>\<open>posixpath\<close>.\<close>

definition path_join :: "string \<Rightarrow> string \<Rightarrow> string" where
  "path_join a b =
     (if b \<noteq> [] \<and> hd b = CHR ''/'' then b
      else if a = [] \<or> last a = CHR ''/'' then a @ b
      else a @ ''/'' @ b)"

text \<open>\<^verbatim>\<open>s.lower()\<close> on ASCII letters.\<close>

definition lower_char :: "char \<Rightarrow> char" where
  "lower_char c =
     (if CHR ''A'' \<le> c \<and> c \<le> CHR ''Z'' then char_of (of_char c + (32::nat)) else c)"

definition lower :: "string \<Rightarrow> string" where
  "lower s = map lower_char s"

subsection \<open>Time stamps\<close>

text \<open>The fields of \<^verbatim>\<open>time.localtime()\<close> that the format strings of the program read.\<close>

record tm =
  tm_year :: nat
  tm_mon :: nat
  tm_mday :: nat
  tm_hour :: nat
  tm_min :: nat
  tm_sec :: nat

definition digit :: "nat \<Rightarrow> char" where
  "digit n = ''0123456789'' ! (n mod 10)"

fun dec :: "nat \<Rightarrow> string" where
  "dec n = (if n < 10 then [digit n] else dec (n div 10) @ [digit n])"

definition pad2 :: "nat \<Rightarrow> string" where
  "pad2 n = (if n < 10 then CHR ''0'' # dec n else dec n)"

text \<open>The hour on the 12-hour clock, \<^verbatim>\<open>%I\<close>: 01 to 12.\<close>

definition hour12 :: "nat \<Rightarrow> nat" where
  "hour12 h = (if h mod 12 = 0 then 12 else h mod 12)"

definition directive :: "char \<Rightarrow> tm \<Rightarrow> string" where
  "directive d t =
     (if d = CHR ''Y'' then dec (tm_year t)
      else if d = CHR ''m'' then pad2 (tm_mon t)
      else if d = CHR ''d'' then pad2 (tm_mday t)
      else if d = CHR ''H'' then pad2 (tm_hour t)
      else if d = CHR ''I'' then pad2 (hour12 (tm_hour t))
      else if d = CHR ''M'' then pad2 (tm_min t)
      else if d = CHR ''S'' then pad2 (tm_sec t)
      else if d = CHR ''%'' then ''%''
      else [CHR ''%'', d])"

text \<open>\<^verbatim>\<open>time.strftime(fmt)\<close> at local time \<open>t\<close>.\<close>

fun strftime :: "string \<Rightarrow> tm \<Rightarrow> string" where
  "strftime [] t = []"
| "strftime [c] t = [c]"
| "strftime (c # d # cs) t =
     (if c = CHR ''%'' then directive d t @ strftime cs t else c # strftime (d # cs) t)"

text \<open>Calendar order of two local times: year, month, day, hour, minute, second.\<close>

definition tm_key :: "tm \<Rightarrow> nat list" where
  "tm_key t = [tm_year t, tm_mon t, tm_mday t, tm_hour t, tm_min t, tm_sec t]"

definition tm_before :: "tm \<Rightarrow> tm \<Rightarrow> bool" where
  "tm_before t1 t2 = (tm_key t1 < tm_key t2)"

definition tm_valid :: "tm \<Rightarrow> bool" where
  "tm_valid t =
     (1 \<le> tm_mon t \<and> tm_mon t \<le> 12 \<and> 1 \<le> tm_mday t \<and> tm_mday t \<le> 31 \<and>
      tm_hour t < 24 \<and> tm_min t < 60 \<and> tm_sec t < 62)"

text \<open>The time stamp that \<^verbatim>\<open>sync\<close> puts into the name of a generation.\<close>

definition timestamp :: "tm \<Rightarrow> string" where
  "timestamp t = strftime ''%Y%m%d%I%M%S'' t"

text \<open>
  The normalisation of the source path in \<^verbatim>\<open>sync\<close>:
  \<^verbatim>\<open>source = source.rstrip("/") + "/"\<close>.
\<close>

definition normalize_source :: "string \<Rightarrow> string" where
  "normalize_source source = rstrip source ''/'' @ ''/''"

text \<open>The number of \<^verbatim>\<open>/\<close> characters at the end of a string.\<close>

definition trailing_slashes :: "string \<Rightarrow> nat" where
  "trailing_slashes s = length (takeWhile (\<lambda>c. c = CHR ''/'') (rev s))"

subsection \<open>Wildcard patterns\<close>

text \<open>
  \<^verbatim>\<open>glob.glob\<close> matches names with the patterns of \<^verbatim>\<open>fnmatch\<close>: \<^verbatim>\<open>*\<close> stands for any
  run of characters, \<^verbatim>\<open>?\<close> for one character, \<^verbatim>\<open>[seq]\<close> and \<^verbatim>\<open>[!seq]\<close> for one
  character in or not in a set with ranges; every other character stands for itself.
  A bracket that is never closed is an ordinary character.
\<close>

datatype citem = Single char | Range char char

datatype tok = Star | Quest | Lit char | Class bool "citem list"

fun class_items :: "string \<Rightarrow> citem list" where
  "class_items (x # m # y # r) =
     (if m = CHR ''-'' then Range x y # class_items r
      else Single x # class_items (m # y # r))"
| "class_items (x # r) = Single x # class_items r"
| "class_items [] = []"

text \<open>
  The text after an opening bracket: the set and what follows the closing bracket.
  A \<^verbatim>\<open>!\<close> and then a \<^verbatim>\<open>]\<close> right after the opening bracket belong to the set.
\<close>

definition bracket :: "string \<Rightarrow> (string \<times> string) option" where
  "bracket cs =
     (let n1 = (if take 1 cs = ''!'' then 1 else 0);
          n2 = (if take 1 (drop n1 cs) = '']'' then 1 else 0);
          body = takeWhile (\<lambda>c. c \<noteq> CHR '']'') (drop (n1 + n2) cs);
          rest = dropWhile (\<lambda>c. c \<noteq> CHR '']'') (drop (n1 + n2) cs)
      in if rest = [] then None else Some (take (n1 + n2) cs @ body, tl rest))"

definition class_tok :: "string \<Rightarrow> tok" where
  "class_tok stuff =
     (if stuff \<noteq> [] \<and> hd stuff = CHR ''!'' then Class True (class_items (tl stuff))
      else Class False (class_items stuff))"

lemma tl_dropWhile_drop_le: "length (tl (dropWhile P (drop k cs))) \<le> length cs"
proof -
  have "length (tl (dropWhile P (drop k cs))) \<le> length (dropWhile P (drop k cs))"
    by simp
  also have "\<dots> \<le> length (drop k cs)"
    by (rule length_dropWhile_le)
  also have "\<dots> \<le> length cs"
    by simp
  finally show ?thesis .
qed

lemma bracket_shorter:
  assumes "bracket cs = Some (stuff, rest)"
  shows "length rest \<le> length cs"
proof -
  from assms obtain k where "rest = tl (dropWhile (\<lambda>c. c \<noteq> CHR '']'') (drop k cs))"
    unfolding bracket_def Let_def by (metis option.inject option.distinct(1) prod.inject)
  then show ?thesis
    by (simp only: tl_dropWhile_drop_le)
qed

function translate :: "string \<Rightarrow> tok list" where
  "translate [] = []"
| "translate (c # cs) =
     (if c = CHR ''*'' then Star # translate cs
      else if c = CHR ''?'' then Quest # translate cs
      else if c = CHR ''['' then
        (case bracket cs of
           None \<Rightarrow> Lit c # translate cs
         | Some (stuff, rest) \<Rightarrow> class_tok stuff # translate rest)
      else Lit c # translate cs)"
  by pat_completeness auto
termination
  by (relation "measure length") (auto dest: bracket_shorter simp: less_Suc_eq_le)

definition in_class :: "char \<Rightarrow> citem list \<Rightarrow> bool" where
  "in_class c items =
     list_ex (\<lambda>i. case i of Single x \<Rightarrow> c = x | Range lo hi \<Rightarrow> lo \<le> c \<and> c \<le> hi) items"

fun gmatch :: "tok list \<Rightarrow> string \<Rightarrow> bool" where
  "gmatch [] s = (s = [])"
| "gmatch (Star # ts) [] = gmatch ts []"
| "gmatch (Star # ts) (x # xs) = (gmatch ts (x # xs) \<or> gmatch (Star # ts) xs)"
| "gmatch (t # ts) [] = False"
| "gmatch (Quest # ts) (x # xs) = gmatch ts xs"
| "gmatch (Class neg items # ts) (x # xs) = (in_class x items \<noteq> neg \<and> gmatch ts xs)"
| "gmatch (Lit c # ts) (x # xs) = (x = c \<and> gmatch ts xs)"

text \<open>\<^verbatim>\<open>fnmatch.fnmatch(name, pat)\<close>.\<close>

definition fnmatch :: "string \<Rightarrow> string \<Rightarrow> bool" where
  "fnmatch name pat = gmatch (translate pat) name"

subsection \<open>Paths\<close>

text \<open>\<^verbatim>\<open>p.split('/')\<close>: the components of a path.\<close>

fun split_sep :: "string \<Rightarrow> string list" where
  "split_sep [] = ['''']"
| "split_sep (c # cs) =
     (if c = CHR ''/'' then [] # split_sep cs
      else (case split_sep cs of [] \<Rightarrow> [c # []] | x # xs \<Rightarrow> (c # x) # xs))"

definition is_abs :: "string \<Rightarrow> bool" where
  "is_abs p = (p \<noteq> [] \<and> hd p = CHR ''/'')"

text \<open>\<^verbatim>\<open>os.path.split(p)\<close> of \<^verbatim>\<open>posixpath\<close>.\<close>

definition path_split :: "string \<Rightarrow> string \<times> string" where
  "path_split p =
     (let tail = rev (takeWhile (\<lambda>c. c \<noteq> CHR ''/'') (rev p));
          head = rev (dropWhile (\<lambda>c. c \<noteq> CHR ''/'') (rev p))
      in (if head \<noteq> [] \<and> \<not> list_all (\<lambda>c. c = CHR ''/'') head then rstrip head ''/'' else head,
          tail))"

text \<open>
  The nodes of the file system are named by their canonical absolute path: \<^verbatim>\<open>/\<close> for
  the root, and the path of the directory, a separator and the name for an entry of
  a directory. A name is a component other than the empty one, \<^verbatim>\<open>.\<close> and \<^verbatim>\<open>..\<close>.
\<close>

definition proper :: "string \<Rightarrow> bool" where
  "proper name = (name \<notin> set ['''', ''.'', ''..''])"

definition child :: "string \<Rightarrow> string \<Rightarrow> string" where
  "child d name = (if d = ''/'' then CHR ''/'' # name else d @ ''/'' @ name)"

definition parent :: "string \<Rightarrow> string" where
  "parent q =
     (let d = rev (tl (dropWhile (\<lambda>c. c \<noteq> CHR ''/'') (rev q)))
      in if d = [] then ''/'' else d)"

text \<open>\<open>under p q\<close>: the node \<open>q\<close> is \<open>p\<close> or lies in the subtree of \<open>p\<close>.\<close>

definition under :: "string \<Rightarrow> string \<Rightarrow> bool" where
  "under p q = (q = p \<or> p = ''/'' \<or> take (Suc (length p)) q = p @ ''/'')"

subsection \<open>The operating system\<close>

text \<open>
  The calls the program makes to the operating system. Every call is appended to the
  trace of the host, whether it succeeds or not.
\<close>

datatype kind = File | Dir

datatype call =
    Open_w string
  | Lockf string
  | Makedirs string
  | Remove string
  | Rmtree string
  | Utime string
  | Open_a string
  | Popen "string list"

datatype exn = OSError call

text \<open>
  The host: the platform name, the local time, the current directory, the nodes of
  the file system with their kind (the root is always there), the calls the system
  answers with an error, and the calls made so far. There are no symbolic links.
\<close>

record host =
  system :: string
  clock :: tm
  cwd :: string
  nodes :: "(string \<times> kind) list"
  denied :: "call \<Rightarrow> bool"
  trace :: "call list"

text \<open>
  A subprocess is a parameter of the model: given the command line and the host it
  answers with a return code and the host it leaves behind. A negative return code
  is the number of the signal that ended the child (\<^verbatim>\<open>Popen.wait\<close>).
\<close>

type_synonym proc = "string list \<Rightarrow> host \<Rightarrow> int \<times> host"

definition called :: "call \<Rightarrow> host \<Rightarrow> host" where
  "called c h = h\<lparr>trace := trace h @ [c]\<rparr>"

definition node_kind :: "host \<Rightarrow> string \<Rightarrow> kind option" where
  "node_kind h q = (if q = ''/'' then Some Dir else map_of (nodes h) q)"

text \<open>
  The walk of the system along the components of a path: a component is looked up
  in a directory only; the empty component and \<^verbatim>\<open>.\<close> stay there, \<^verbatim>\<open>..\<close> goes to the
  directory above, a name goes to the entry of this name.
\<close>

fun walk :: "host \<Rightarrow> string \<Rightarrow> string list \<Rightarrow> string option" where
  "walk h cur [] = Some cur"
| "walk h cur (c # cs) =
     (if node_kind h cur \<noteq> Some Dir then None
      else if c = [] \<or> c = ''.'' then walk h cur cs
      else if c = ''..'' then walk h (parent cur) cs
      else walk h (child cur c) cs)"

definition start :: "host \<Rightarrow> string \<Rightarrow> string" where
  "start h p = (if is_abs p then ''/'' else cwd h)"

text \<open>The node that a path names, when there is one. The empty path names nothing.\<close>

definition resolve :: "host \<Rightarrow> string \<Rightarrow> string option" where
  "resolve h p =
     (if p = [] then None
      else
        (case walk h (start h p) (split_sep p) of
           None \<Rightarrow> None
         | Some q \<Rightarrow> (if node_kind h q = None then None else Some q)))"

definition kind_of :: "host \<Rightarrow> string \<Rightarrow> kind option" where
  "kind_of h p = (case resolve h p of None \<Rightarrow> None | Some q \<Rightarrow> node_kind h q)"

text \<open>\<^verbatim>\<open>os.path.exists(p)\<close> and \<^verbatim>\<open>os.path.isdir(p)\<close>.\<close>

definition path_exists :: "host \<Rightarrow> string \<Rightarrow> bool" where
  "path_exists h p = (kind_of h p \<noteq> None)"

definition isdir :: "host \<Rightarrow> string \<Rightarrow> bool" where
  "isdir h p = (kind_of h p = Some Dir)"

text \<open>
  The names of the entries of a directory, as \<^verbatim>\<open>os.scandir\<close> lists them, all of them
  or the directories only; the empty path is the current directory, as in
  \<^verbatim>\<open>glob._iterdir\<close>, and what cannot be listed has no entries.
\<close>

definition listdir :: "host \<Rightarrow> string \<Rightarrow> bool \<Rightarrow> string list" where
  "listdir h d dironly =
     (case resolve h (if d = [] then ''.'' else d) of
        None \<Rightarrow> []
      | Some dn \<Rightarrow>
          if node_kind h dn \<noteq> Some Dir then []
          else
            map (\<lambda>(q, k). last (split_sep q))
              (filter (\<lambda>(q, k). proper (last (split_sep q))
                               \<and> q = child dn (last (split_sep q))
                               \<and> (k = Dir \<or> \<not> dironly))
                 (nodes h)))"

subsection \<open>glob\<close>

text \<open>\<^verbatim>\<open>glob.has_magic\<close> and \<^verbatim>\<open>glob._ishidden\<close>.\<close>

definition has_magic :: "string \<Rightarrow> bool" where
  "has_magic s = list_ex (\<lambda>c. c = CHR ''*'' \<or> c = CHR ''?'' \<or> c = CHR ''['') s"

definition ishidden :: "string \<Rightarrow> bool" where
  "ishidden name = (name \<noteq> [] \<and> hd name = CHR ''.'')"

text \<open>\<^verbatim>\<open>glob._glob1\<close>: the entries of a directory that match a pattern with wildcards.\<close>

definition glob1 :: "host \<Rightarrow> string \<Rightarrow> string \<Rightarrow> bool \<Rightarrow> string list" where
  "glob1 h dirname pattern dironly =
     filter (\<lambda>name. fnmatch name pattern)
       (if ishidden pattern then listdir h dirname dironly
        else filter (\<lambda>name. \<not> ishidden name) (listdir h dirname dironly))"

text \<open>\<^verbatim>\<open>glob._glob0\<close>: a base name without wildcards.\<close>

definition glob0 :: "host \<Rightarrow> string \<Rightarrow> string \<Rightarrow> string list" where
  "glob0 h dirname basename =
     (if basename = [] then (if isdir h dirname then [basename] else [])
      else if path_exists h (path_join dirname basename) then [basename] else [])"

lemma rev_dropWhile_rev_take: "\<exists>k. rev (dropWhile P (rev xs)) = take k xs"
proof -
  obtain m where "dropWhile P (rev xs) = drop m (rev xs)"
    by (metis dropWhile_eq_drop)
  then have "rev (dropWhile P (rev xs)) = take (length xs - m) xs"
    by (simp add: rev_drop)
  then show ?thesis by blast
qed

lemma path_split_head_le: "length (fst (path_split p)) \<le> length p"
proof -
  obtain k where k: "rev (dropWhile (\<lambda>c. c \<noteq> CHR ''/'') (rev p)) = take k p"
    using rev_dropWhile_rev_take by blast
  obtain j where "rstrip (take k p) ''/'' = take j (take k p)"
    unfolding rstrip_def using rev_dropWhile_rev_take by blast
  with k show ?thesis
    by (auto simp: path_split_def Let_def)
qed

lemma path_split_head_less:
  assumes "snd (path_split p) \<noteq> []"
  shows "length (fst (path_split p)) < length p"
proof -
  let ?t = "takeWhile (\<lambda>c. c \<noteq> CHR ''/'') (rev p)"
  let ?d = "dropWhile (\<lambda>c. c \<noteq> CHR ''/'') (rev p)"
  from assms have t: "?t \<noteq> []" by (simp add: path_split_def Let_def)
  have "length ?t + length ?d = length p"
    by (metis length_append length_rev takeWhile_dropWhile_id)
  with t have d: "length (rev ?d) < length p"
    by (cases ?t) simp_all
  obtain j where "rstrip (rev ?d) ''/'' = take j (rev ?d)"
    unfolding rstrip_def using rev_dropWhile_rev_take by blast
  then have "length (rstrip (rev ?d) ''/'') \<le> length (rev ?d)" by simp
  with d show ?thesis
    by (auto simp: path_split_def Let_def)
qed

lemma path_split_head_neq:
  assumes "fst (path_split p) \<noteq> p"
  shows "length (fst (path_split p)) < length p"
proof (cases "snd (path_split p) = []")
  case False
  then show ?thesis by (rule path_split_head_less)
next
  case True
  let ?t = "takeWhile (\<lambda>c. c \<noteq> CHR ''/'') (rev p)"
  let ?d = "dropWhile (\<lambda>c. c \<noteq> CHR ''/'') (rev p)"
  from True have "?t = []" by (simp add: path_split_def Let_def)
  then have d: "rev ?d = p"
    by (metis append_Nil rev_rev_ident takeWhile_dropWhile_id)
  obtain j where j: "rstrip p ''/'' = take j p"
    unfolding rstrip_def using rev_dropWhile_rev_take by blast
  from assms d have neq: "rstrip p ''/'' \<noteq> p" and fst: "fst (path_split p) = rstrip p ''/''"
    by (auto simp: path_split_def Let_def split: if_splits)
  from j neq have "j < length p"
    by (metis linorder_not_less take_all)
  with j fst show ?thesis by simp
qed

text \<open>
  \<^verbatim>\<open>glob._iglob\<close>, not recursive: the pattern is split into its directory and its base
  name; a directory with wildcards is expanded first, to directories only; the base
  name is matched in every directory, and the names come back joined to it.
\<close>

function iglob :: "host \<Rightarrow> string \<Rightarrow> bool \<Rightarrow> string list" where
  "iglob h pathname dironly =
     (if \<not> has_magic pathname then
        (if snd (path_split pathname) \<noteq> []
         then (if path_exists h pathname then [pathname] else [])
         else (if isdir h (fst (path_split pathname)) then [pathname] else []))
      else if fst (path_split pathname) = []
      then glob1 h (fst (path_split pathname)) (snd (path_split pathname)) dironly
      else
        concat
          (map (\<lambda>dirname.
                  map (path_join dirname)
                    (if has_magic (snd (path_split pathname))
                     then glob1 h dirname (snd (path_split pathname)) dironly
                     else glob0 h dirname (snd (path_split pathname))))
             (if fst (path_split pathname) \<noteq> pathname \<and> has_magic (fst (path_split pathname))
              then iglob h (fst (path_split pathname)) True
              else [fst (path_split pathname)])))"
  by pat_completeness auto
termination
  by (relation "measure (\<lambda>(h, pathname, dironly). length pathname)")
     (auto intro: path_split_head_neq)

declare iglob.simps [simp del]

text \<open>\<^verbatim>\<open>glob.glob(pattern)\<close>.\<close>

definition glob_glob :: "host \<Rightarrow> string \<Rightarrow> string list" where
  "glob_glob h pat = iglob h pat False"

subsection \<open>Calls that change the file system\<close>

text \<open>
  \<^verbatim>\<open>os.mkdir(p)\<close>: the directory above must be there, and the path, without its
  trailing separators, must end in a name that is not taken.
\<close>

datatype made = Created | Exists | Failed

definition mkdir :: "string \<Rightarrow> host \<Rightarrow> made \<times> host" where
  "mkdir p h =
     (if p = [] then (Failed, h)
      else if rstrip p ''/'' = [] then (Exists, h)
      else
        (case walk h (start h p) (butlast (split_sep (rstrip p ''/''))) of
           None \<Rightarrow> (Failed, h)
         | Some d \<Rightarrow>
             if node_kind h d \<noteq> Some Dir then (Failed, h)
             else if \<not> proper (last (split_sep (rstrip p ''/''))) then (Exists, h)
             else if node_kind h (child d (last (split_sep (rstrip p ''/'')))) \<noteq> None
             then (Exists, h)
             else (Created,
                   h\<lparr>nodes := nodes h @ [(child d (last (split_sep (rstrip p ''/''))), Dir)]\<rparr>)))"

text \<open>
  \<^verbatim>\<open>os.makedirs(name)\<close> of the library: the head and the tail of the path, taken again
  from the head when the tail is empty; a missing head is created first, and an
  error of this step is passed on unless it says that the directory exists.
\<close>

definition makedirs_split :: "string \<Rightarrow> string \<times> string" where
  "makedirs_split name =
     (if snd (path_split name) = [] then path_split (fst (path_split name))
      else path_split name)"

lemma makedirs_split_less:
  assumes "snd (makedirs_split name) \<noteq> []"
  shows "length (fst (makedirs_split name)) < length name"
proof (cases "snd (path_split name) = []")
  case False
  with assms show ?thesis by (simp add: makedirs_split_def path_split_head_less)
next
  case True
  with assms have "length (fst (makedirs_split name)) < length (fst (path_split name))"
    by (simp add: makedirs_split_def path_split_head_less)
  with path_split_head_le [of name] show ?thesis by simp
qed

function makedirs :: "string \<Rightarrow> host \<Rightarrow> made \<times> host" where
  "makedirs name h =
     (if fst (makedirs_split name) \<noteq> [] \<and> snd (makedirs_split name) \<noteq> []
         \<and> \<not> path_exists h (fst (makedirs_split name))
      then
        (case makedirs (fst (makedirs_split name)) h of
           (Failed, h1) \<Rightarrow> (Failed, h1)
         | (r, h1) \<Rightarrow> if snd (makedirs_split name) = ''.'' then (Created, h1) else mkdir name h1)
      else mkdir name h)"
  by pat_completeness auto
termination
  by (relation "measure (\<lambda>(name, h). length name)") (auto intro: makedirs_split_less)

declare makedirs.simps [simp del]

definition os_makedirs :: "string \<Rightarrow> host \<Rightarrow> (exn + unit) \<times> host" where
  "os_makedirs p h =
     (let h1 = called (Makedirs p) h in
      if denied h (Makedirs p) then (Inl (OSError (Makedirs p)), h1)
      else
        (case makedirs p h1 of
           (Created, h2) \<Rightarrow> (Inr (), h2)
         | (r, h2) \<Rightarrow> (Inl (OSError (Makedirs p)), h2)))"

text \<open>
  A path that ends in \<^verbatim>\<open>.\<close> or \<^verbatim>\<open>..\<close> or names the root: the system does not remove
  a directory under such a path.
\<close>

definition dotted :: "string \<Rightarrow> bool" where
  "dotted p = (\<not> proper (last (split_sep (rstrip p ''/''))))"

text \<open>
  \<^verbatim>\<open>shutil.rmtree(p)\<close>: removes what is in the directory and then the directory. It
  raises when the path is not a directory or the removal is refused, and then the
  entry stays; under a dotted path it raises after the directory was emptied.
\<close>

definition shutil_rmtree :: "string \<Rightarrow> host \<Rightarrow> (exn + unit) \<times> host" where
  "shutil_rmtree p h =
     (let h1 = called (Rmtree p) h in
      case resolve h p of
        None \<Rightarrow> (Inl (OSError (Rmtree p)), h1)
      | Some d \<Rightarrow>
          if denied h (Rmtree p) \<or> node_kind h d \<noteq> Some Dir then (Inl (OSError (Rmtree p)), h1)
          else if dotted p
          then (Inl (OSError (Rmtree p)),
                h1\<lparr>nodes := filter (\<lambda>(q, k). \<not> (under d q \<and> q \<noteq> d)) (nodes h1)\<rparr>)
          else (Inr (), h1\<lparr>nodes := filter (\<lambda>(q, k). \<not> under d q) (nodes h1)\<rparr>))"

text \<open>\<^verbatim>\<open>os.remove(p)\<close>: removes a file.\<close>

definition os_remove :: "string \<Rightarrow> host \<Rightarrow> (exn + unit) \<times> host" where
  "os_remove p h =
     (let h1 = called (Remove p) h in
      case resolve h p of
        None \<Rightarrow> (Inl (OSError (Remove p)), h1)
      | Some f \<Rightarrow>
          if denied h (Remove p) \<or> node_kind h f \<noteq> Some File then (Inl (OSError (Remove p)), h1)
          else (Inr (), h1\<lparr>nodes := filter (\<lambda>(q, k). q \<noteq> f) (nodes h1)\<rparr>))"

definition os_utime :: "string \<Rightarrow> host \<Rightarrow> (exn + unit) \<times> host" where
  "os_utime p h =
     (let h1 = called (Utime p) h in
      if denied h (Utime p) \<or> \<not> path_exists h p then (Inl (OSError (Utime p)), h1)
      else (Inr (), h1))"

text \<open>
  Opening a file for writing: an existing file opens, a missing one is created in an
  existing directory, and a path that names or demands a directory does not open.
\<close>

definition open_create :: "call \<Rightarrow> string \<Rightarrow> host \<Rightarrow> (exn + unit) \<times> host" where
  "open_create c p h =
     (let h1 = called c h in
      if denied h c \<or> p = [] then (Inl (OSError c), h1)
      else
        (case resolve h p of
           Some f \<Rightarrow> if node_kind h f = Some File then (Inr (), h1) else (Inl (OSError c), h1)
         | None \<Rightarrow>
             (case walk h (start h p) (butlast (split_sep p)) of
                None \<Rightarrow> (Inl (OSError c), h1)
              | Some d \<Rightarrow>
                  if node_kind h d = Some Dir \<and> proper (last (split_sep p))
                     \<and> node_kind h (child d (last (split_sep p))) = None
                  then (Inr (), h1\<lparr>nodes := nodes h1 @ [(child d (last (split_sep p)), File)]\<rparr>)
                  else (Inl (OSError c), h1))))"

text \<open>\<^verbatim>\<open>open(p, 'a')\<close> and \<^verbatim>\<open>open(p, 'w')\<close>.\<close>

definition open_append :: "string \<Rightarrow> host \<Rightarrow> (exn + unit) \<times> host" where
  "open_append p h = open_create (Open_a p) p h"

definition open_write :: "string \<Rightarrow> host \<Rightarrow> (exn + unit) \<times> host" where
  "open_write p h = open_create (Open_w p) p h"

text \<open>\<^verbatim>\<open>fcntl.lockf(fp, LOCK_EX | LOCK_NB)\<close>: refused when another process holds the lock.\<close>

definition fcntl_lockf :: "string \<Rightarrow> host \<Rightarrow> (exn + unit) \<times> host" where
  "fcntl_lockf p h =
     (let h1 = called (Lockf p) h in
      if denied h (Lockf p) then (Inl (OSError (Lockf p)), h1) else (Inr (), h1))"

text \<open>
  Python slicing \<^verbatim>\<open>xs[:j]\<close>: a negative bound counts from the end and is clamped
  at the start of the list.
\<close>

definition slice_to :: "'a list \<Rightarrow> int \<Rightarrow> 'a list" where
  "slice_to xs j = (if j < 0 then take (nat (int (length xs) + j)) xs else take (nat j) xs)"

subsection \<open>The program\<close>

text \<open>
  \<^verbatim>\<open>launch_command(cmd_line)\<close>: starts the command, waits for it and returns its
  return code. The log lines have no effect on the result.
\<close>

definition launch_command :: "proc \<Rightarrow> string list \<Rightarrow> host \<Rightarrow> (exn + int) \<times> host" where
  "launch_command proc cmd_line h =
     (if denied h (Popen cmd_line) then (Inl (OSError (Popen cmd_line)), called (Popen cmd_line) h)
      else
        let (return_code, h1) = proc cmd_line h
        in (Inr return_code, h1\<lparr>trace := trace h @ [Popen cmd_line]\<rparr>))"

text \<open>\<^verbatim>\<open>touch(path)\<close>.\<close>

definition touch :: "string \<Rightarrow> host \<Rightarrow> (exn + unit) \<times> host" where
  "touch path h =
     (if isdir h path then os_utime path h
      else
        (case open_append path h of
           (Inl e, h1) \<Rightarrow> (Inl e, h1)
         | (Inr u, h1) \<Rightarrow> os_utime path h1))"

text \<open>The pattern of the generations of a name and a tag in a destination.\<close>

definition search_glob :: "string \<Rightarrow> string \<Rightarrow> string \<Rightarrow> string" where
  "search_glob dest name tag = path_join dest (''snapback_'' @ name @ ''_*_'' @ tag)"

text \<open>The loop of \<^verbatim>\<open>rotate\<close> over the delete list: an exception ends it.\<close>

fun rotate_loop :: "string list \<Rightarrow> host \<Rightarrow> (exn + unit) \<times> host" where
  "rotate_loop [] h = (Inr (), h)"
| "rotate_loop (snapshot # rest) h =
     (case shutil_rmtree snapshot h of
        (Inl e, h1) \<Rightarrow> (Inl e, h1)
      | (Inr u, h1) \<Rightarrow> rotate_loop rest h1)"

definition delete_list :: "host \<Rightarrow> string \<Rightarrow> string \<Rightarrow> string \<Rightarrow> int \<Rightarrow> string list" where
  "delete_list h dest name tag keep =
     slice_to (sort (glob_glob h (search_glob dest name tag))) (- keep)"

definition rotate :: "string \<Rightarrow> string \<Rightarrow> string \<Rightarrow> int \<Rightarrow> host \<Rightarrow> (exn + unit) \<times> host" where
  "rotate dest name tag keep h =
     (if keep < 1 then (Inr (), h)
      else rotate_loop (delete_list h dest name tag keep) h)"

text \<open>The path of the generation created at local time \<open>t\<close>.\<close>

definition snapshot_path :: "string \<Rightarrow> string \<Rightarrow> string \<Rightarrow> tm \<Rightarrow> string" where
  "snapshot_path dest name tag t =
     path_join dest (''snapback_'' @ name @ ''_'' @ timestamp t @ ''_'' @ tag)"

definition cp_cmd :: "string \<Rightarrow> string \<Rightarrow> string list" where
  "cp_cmd last_snapshot current_snapshot =
     [''cp'', ''-a'', ''-l'', last_snapshot, current_snapshot]"

definition rsync_cmd :: "string list \<Rightarrow> string \<Rightarrow> string \<Rightarrow> string list" where
  "rsync_cmd excludes source current_snapshot =
     [''rsync'', ''-va'', ''--human-readable'', ''--delete'', ''--delete-excluded'']
     @ map (\<lambda>exclude. ''--exclude='' @ exclude) excludes
     @ [source, current_snapshot]"

text \<open>
  The second half of \<^verbatim>\<open>sync\<close>, from the normalisation of the source path to the
  end: the mirroring step and the completion marker.
\<close>

definition sync_mirror ::
  "proc \<Rightarrow> string \<Rightarrow> string \<Rightarrow> string \<Rightarrow> string list \<Rightarrow> host \<Rightarrow> (exn + int) \<times> host" where
  "sync_mirror proc source dest current_snapshot excludes h =
     (let src = normalize_source source;
          cur = current_snapshot @ ''/''
      in
      case (if \<not> path_exists h dest then os_makedirs dest h else (Inr (), h)) of
        (Inl e, h1) \<Rightarrow> (Inl e, h1)
      | (Inr u, h1) \<Rightarrow>
          (case launch_command proc (rsync_cmd excludes src cur) h1 of
             (Inl e, h2) \<Rightarrow> (Inl e, h2)
           | (Inr result, h2) \<Rightarrow>
               if result > 0 then (Inr result, h2)
               else
                 (case touch cur h2 of
                    (Inl e, h3) \<Rightarrow> (Inl e, h3)
                  | (Inr u, h3) \<Rightarrow>
                      let date = strftime ''%Y%m%d_%I%M%S'' (clock h3);
                          date_file = path_join cur (''_backup_'' @ date)
                      in
                      (case touch date_file h3 of
                         (Inl e, h4) \<Rightarrow> (Inl e, h4)
                       | (Inr u, h4) \<Rightarrow> (Inr 0, h4)))))"

text \<open>\<^verbatim>\<open>sync(source, dest, name, tag, excludes)\<close>.\<close>

definition sync ::
  "proc \<Rightarrow> string \<Rightarrow> string \<Rightarrow> string \<Rightarrow> string \<Rightarrow> string list option \<Rightarrow> host
     \<Rightarrow> (exn + int) \<times> host" where
  "sync proc source dest name tag excludes h =
     (let excl = (case excludes of None \<Rightarrow> [] | Some es \<Rightarrow> es);
          current_snapshot = snapshot_path dest name tag (clock h);
          snapshots_list = sort (glob_glob h (search_glob dest name tag))
      in
      if snapshots_list \<noteq> [] then
        (case launch_command proc (cp_cmd (last snapshots_list) current_snapshot) h of
           (Inl e, h1) \<Rightarrow> (Inl e, h1)
         | (Inr result, h1) \<Rightarrow>
             if result > 0 then (Inr result, h1)
             else sync_mirror proc source dest current_snapshot excl h1)
      else sync_mirror proc source dest current_snapshot excl h)"

text \<open>The parsed command line.\<close>

record args =
  args_name :: string
  args_tag :: string
  args_keep :: int
  args_excludes :: "string list"
  args_source :: string
  args_dest :: string

text \<open>
  How the process ends: \<^verbatim>\<open>sys.exit(n)\<close>, or an exception that nothing catches. The
  exit status of the process is the low byte of \<open>n\<close>, and 1 after a traceback.
\<close>

datatype outcome = Exit int | Uncaught exn

definition exit_status :: "outcome \<Rightarrow> int" where
  "exit_status out = (case out of Exit n \<Rightarrow> n mod 256 | Uncaught e \<Rightarrow> 1)"

definition lock_path :: "string \<Rightarrow> string" where
  "lock_path name = ''/tmp/snapback_'' @ name @ ''.lock''"

text \<open>The backup itself, the last lines of \<^verbatim>\<open>main\<close>: sync, rotate, unlock, exit.\<close>

definition main_run :: "proc \<Rightarrow> args \<Rightarrow> host \<Rightarrow> outcome \<times> host" where
  "main_run proc a h =
     (case sync proc (args_source a) (args_dest a) (args_name a) (args_tag a)
             (Some (args_excludes a)) h of
        (Inl e, h1) \<Rightarrow> (Uncaught e, h1)
      | (Inr res, h1) \<Rightarrow>
          (case rotate (args_dest a) (args_name a) (args_tag a) (args_keep a) h1 of
             (Inl e, h2) \<Rightarrow> (Uncaught e, h2)
           | (Inr u, h2) \<Rightarrow>
               (case os_remove (lock_path (args_name a)) h2 of
                  (Inl e, h3) \<Rightarrow> (Uncaught e, h3)
                | (Inr u, h3) \<Rightarrow> (Exit res, h3))))"

text \<open>\<^verbatim>\<open>main()\<close> after the command line is parsed.\<close>

definition main :: "proc \<Rightarrow> args \<Rightarrow> host \<Rightarrow> outcome \<times> host" where
  "main proc a h =
     (if lower (system h) \<noteq> ''linux'' then (Exit 1, h)
      else
        (case open_write (lock_path (args_name a)) h of
           (Inl e, h1) \<Rightarrow> (Exit 1, h1)
         | (Inr u, h1) \<Rightarrow>
             (case fcntl_lockf (lock_path (args_name a)) h1 of
                (Inl e, h2) \<Rightarrow> (Exit 1, h2)
              | (Inr u, h2) \<Rightarrow>
                  if \<not> path_exists h2 (args_dest a) then
                    (case os_makedirs (args_dest a) h2 of
                       (Inl e, h3) \<Rightarrow> (Uncaught e, h3)
                     | (Inr u, h3) \<Rightarrow> main_run proc a h3)
                  else if \<not> isdir h2 (args_dest a) then (Exit 1, h2)
                  else main_run proc a h2)))"

subsection \<open>Notions used in the statements\<close>

text \<open>A well-formed listing: no node is listed twice.\<close>

definition wf_host :: "host \<Rightarrow> bool" where
  "wf_host h = distinct (map fst (nodes h))"

text \<open>A path that \<^verbatim>\<open>shutil.rmtree\<close> removes without an error.\<close>

definition removable :: "host \<Rightarrow> string \<Rightarrow> bool" where
  "removable h p = (isdir h p \<and> \<not> denied h (Rmtree p) \<and> \<not> dotted p)"

text \<open>\<open>inside h d q\<close>: the node \<open>q\<close> is in the subtree that the path \<open>d\<close> names.\<close>

definition inside :: "host \<Rightarrow> string \<Rightarrow> string \<Rightarrow> bool" where
  "inside h d q = (case resolve h d of None \<Rightarrow> False | Some p \<Rightarrow> under p q)"

text \<open>The host after the subtrees \<open>ds\<close> were removed, one call each, in this order.\<close>

definition without :: "string list \<Rightarrow> host \<Rightarrow> host" where
  "without ds h =
     h\<lparr>nodes := filter (\<lambda>(q, k). \<not> list_ex (\<lambda>d. inside h d q) ds) (nodes h),
       trace := trace h @ map Rmtree ds\<rparr>"

text \<open>
  A plain directory path: no wildcard and no step to the directory above. The
  generations of a pattern with such a directory part are entries of one directory.
\<close>

definition plain :: "string \<Rightarrow> bool" where
  "plain d = (\<not> has_magic d \<and> ''..'' \<notin> set (split_sep d))"



subsection \<open>The stages of main\<close>

text \<open>
  The lock is taken when the lock file opens and the lock call is not refused;
  \<open>after_lock\<close> is the host after both calls. The destination is ready when it is a
  directory or could be created; \<open>after_dest\<close> is the host on which \<^verbatim>\<open>sync\<close> starts.
\<close>

definition lock_taken :: "args \<Rightarrow> host \<Rightarrow> bool" where
  "lock_taken a h =
     (fst (open_write (lock_path (args_name a)) h) = Inr ()
      \<and> fst (fcntl_lockf (lock_path (args_name a))
                (snd (open_write (lock_path (args_name a)) h))) = Inr ())"

definition after_lock :: "args \<Rightarrow> host \<Rightarrow> host" where
  "after_lock a h =
     snd (fcntl_lockf (lock_path (args_name a)) (snd (open_write (lock_path (args_name a)) h)))"

definition dest_ready :: "args \<Rightarrow> host \<Rightarrow> bool" where
  "dest_ready a h =
     (if path_exists (after_lock a h) (args_dest a) then isdir (after_lock a h) (args_dest a)
      else fst (os_makedirs (args_dest a) (after_lock a h)) = Inr ())"

definition after_dest :: "args \<Rightarrow> host \<Rightarrow> host" where
  "after_dest a h =
     (if path_exists (after_lock a h) (args_dest a) then after_lock a h
      else snd (os_makedirs (args_dest a) (after_lock a h)))"

text \<open>What a result shows of the host: the listing and the calls.\<close>

definition view :: "'a \<times> host \<Rightarrow> 'a \<times> (string \<times> kind) list \<times> call list" where
  "view x = (fst x, nodes (snd x), trace (snd x))"

subsection \<open>A sample host\<close>

text \<open>
  A host with the directory \<^verbatim>\<open>/tmp\<close> and a destination with three daily generations
  and one weekly generation of the backup \<^verbatim>\<open>home\<close>, listed in the order of the
  directory; and commands that create the directory named by their last argument and
  end with given return codes: \<open>c\<close> for \<^verbatim>\<open>cp\<close>, \<open>r\<close> for every other command.
\<close>

definition ex_clock :: tm where
  "ex_clock = \<lparr>tm_year = 2024, tm_mon = 1, tm_mday = 2, tm_hour = 9, tm_min = 30, tm_sec = 0\<rparr>"

definition ex_host :: host where
  "ex_host =
     \<lparr>system = ''Linux'', clock = ex_clock, cwd = ''/'',
      nodes = [(''/tmp'', Dir), (''/backup'', Dir),
               (''/backup/snapback_home_20240101100000_daily'', Dir),
               (''/backup/snapback_home_20240101090000_daily'', Dir),
               (''/backup/snapback_home_20240101110000_daily'', Dir),
               (''/backup/snapback_home_20240101110000_weekly'', Dir)],
      denied = (\<lambda>c. False), trace = []\<rparr>"

definition ex_empty :: host where
  "ex_empty =
     \<lparr>system = ''Linux'', clock = ex_clock, cwd = ''/'',
      nodes = [(''/tmp'', Dir), (''/backup'', Dir)],
      denied = (\<lambda>c. False), trace = []\<rparr>"

definition ex_proc :: "int \<Rightarrow> int \<Rightarrow> proc" where
  "ex_proc c r cmd_line h =
     (if take 1 cmd_line = [''cp''] then c else r,
      if cmd_line = [] then h else snd (mkdir (last cmd_line) h))"

definition ex_args :: "int \<Rightarrow> args" where
  "ex_args k =
     \<lparr>args_name = ''home'', args_tag = ''daily'', args_keep = k, args_excludes = [],
      args_source = ''/home/u'', args_dest = ''/backup''\<rparr>"

text \<open>
  Variants of the sample host: another platform, a lock held by another process, a
  destination that is a file, and a generation that cannot be removed.
\<close>

definition ex_darwin :: host where
  "ex_darwin = ex_host\<lparr>system := ''Darwin''\<rparr>"

definition ex_locked :: host where
  "ex_locked = ex_host\<lparr>denied := (\<lambda>c. c = Lockf ''/tmp/snapback_home.lock'')\<rparr>"

definition ex_file_dest :: host where
  "ex_file_dest = ex_host\<lparr>nodes := [(''/tmp'', Dir), (''/backup'', File)]\<rparr>"


text \<open>
  Two runs on the first of January 2024, at eleven in the morning and at one in the
  afternoon, into a destination without generations; \<open>ex_two_runs\<close> is the host after
  the second run.
\<close>

definition ex_morning :: tm where
  "ex_morning = \<lparr>tm_year = 2024, tm_mon = 1, tm_mday = 1, tm_hour = 11, tm_min = 0, tm_sec = 0\<rparr>"

definition ex_afternoon :: tm where
  "ex_afternoon = \<lparr>tm_year = 2024, tm_mon = 1, tm_mday = 1, tm_hour = 13, tm_min = 0, tm_sec = 0\<rparr>"

definition ex_two_runs :: host where
  "ex_two_runs =
     snd (sync (ex_proc 0 0) ''/home/u'' ''/backup'' ''home'' ''daily'' (Some [])
            ((snd (sync (ex_proc 0 0) ''/home/u'' ''/backup'' ''home'' ''daily'' (Some [])
                     (ex_empty\<lparr>clock := ex_morning\<rparr>)))\<lparr>clock := ex_afternoon\<rparr>))"

section \<open>Properties\<close>

subsection \<open>The source path\<close>

lemma trailing_slashes_append: "trailing_slashes (p @ ''/'') = Suc (trailing_slashes p)"
  by (simp add: trailing_slashes_def)

lemma trailing_slashes_rstrip: "trailing_slashes (rstrip s ''/'') = 0"
proof -
  let ?d = "dropWhile (\<lambda>c. c = CHR ''/'') (rev s)"
  have "?d = [] \<or> hd ?d \<noteq> CHR ''/''"
    using hd_dropWhile [of "\<lambda>c. c = CHR ''/''" "rev s"] by blast
  then show ?thesis
    by (auto simp: trailing_slashes_def rstrip_def takeWhile_eq_Nil_iff)
qed

lemma rstrip_append_slash: "rstrip (p @ ''/'') ''/'' = rstrip p ''/''"
  by (simp add: rstrip_def)

lemma rstrip_idem: "rstrip (rstrip s ''/'') ''/'' = rstrip s ''/''"
  by (simp add: rstrip_def dropWhile_idem)

text \<open>
  Claim C10. The normalised source path ends in exactly one separator, normalising
  twice is normalising once, and both the root and the empty path become the root.
\<close>

theorem normalize_source_one_slash_idem:
  "trailing_slashes (normalize_source s) = 1
   \<and> normalize_source (normalize_source s) = normalize_source s
   \<and> normalize_source ''/'' = ''/''
   \<and> normalize_source [] = ''/''"
proof -
  have "trailing_slashes (normalize_source s) = 1"
    by (simp add: normalize_source_def trailing_slashes_append trailing_slashes_rstrip)
  moreover have "normalize_source (normalize_source s) = normalize_source s"
    by (simp add: normalize_source_def rstrip_append_slash rstrip_idem)
  moreover have "normalize_source ''/'' = ''/''" and "normalize_source [] = ''/''"
    by (simp_all add: normalize_source_def rstrip_def)
  ultimately show ?thesis by blast
qed

subsection \<open>Time stamps and the order of names\<close>

text \<open>
  Claim C2, evaluated on the code: eleven in the morning comes before one in the
  afternoon of the same day, and the time stamp of the morning is the greater string,
  because the hour is written on the 12-hour clock.
\<close>

theorem timestamp_order_broken_by_12_hour_clock:
  "tm_valid \<lparr>tm_year = 2024, tm_mon = 1, tm_mday = 1, tm_hour = 11, tm_min = 0, tm_sec = 0\<rparr>
   \<and> tm_valid \<lparr>tm_year = 2024, tm_mon = 1, tm_mday = 1, tm_hour = 13, tm_min = 0, tm_sec = 0\<rparr>
   \<and> tm_before
        \<lparr>tm_year = 2024, tm_mon = 1, tm_mday = 1, tm_hour = 11, tm_min = 0, tm_sec = 0\<rparr>
        \<lparr>tm_year = 2024, tm_mon = 1, tm_mday = 1, tm_hour = 13, tm_min = 0, tm_sec = 0\<rparr>
   \<and> timestamp \<lparr>tm_year = 2024, tm_mon = 1, tm_mday = 1, tm_hour = 11, tm_min = 0, tm_sec = 0\<rparr>
       = ''20240101110000''
   \<and> timestamp \<lparr>tm_year = 2024, tm_mon = 1, tm_mday = 1, tm_hour = 13, tm_min = 0, tm_sec = 0\<rparr>
       = ''20240101010000''
   \<and> timestamp \<lparr>tm_year = 2024, tm_mon = 1, tm_mday = 1, tm_hour = 13, tm_min = 0, tm_sec = 0\<rparr>
       < timestamp \<lparr>tm_year = 2024, tm_mon = 1, tm_mday = 1, tm_hour = 11, tm_min = 0, tm_sec = 0\<rparr>"
  by code_simp

subsection \<open>Paths and the walk\<close>

lemma split_sep_not_Nil: "split_sep p \<noteq> []"
  by (induction p) (auto split: list.splits)

lemma split_sep_nosep: "c \<in> set (split_sep p) \<Longrightarrow> CHR ''/'' \<notin> set c"
proof (induction p arbitrary: c)
  case Nil
  then show ?case by simp
next
  case (Cons x p)
  show ?case
  proof (cases "x = CHR ''/''")
    case True
    with Cons show ?thesis by auto
  next
    case False
    obtain y ys where s: "split_sep p = y # ys"
      using split_sep_not_Nil [of p] by (cases "split_sep p") auto
    with False Cons.prems have "c = x # y \<or> c \<in> set ys" by simp
    moreover have "CHR ''/'' \<notin> set y" using Cons.IH [of y] s by simp
    moreover have "c \<in> set ys \<Longrightarrow> CHR ''/'' \<notin> set c" using Cons.IH [of c] s by simp
    ultimately show ?thesis using False by auto
  qed
qed

lemma split_sep_single: "CHR ''/'' \<notin> set n \<Longrightarrow> split_sep n = [n]"
  by (induction n) auto

lemma split_sep_append: "split_sep (a @ CHR ''/'' # b) = split_sep a @ split_sep b"
proof (induction a)
  case Nil
  then show ?case by simp
next
  case (Cons x a)
  obtain y ys where s: "split_sep a = y # ys"
    using split_sep_not_Nil [of a] by (cases "split_sep a") auto
  with Cons show ?case by simp
qed

lemma split_sep_snoc:
  "CHR ''/'' \<notin> set n \<Longrightarrow> split_sep (a @ CHR ''/'' # n) = split_sep a @ [n]"
  by (simp add: split_sep_append split_sep_single)

text \<open>The components of a directory path before the name of an entry is added.\<close>

lemma split_sep_path_join:
  assumes n: "CHR ''/'' \<notin> set n" "n \<noteq> []" and d: "d \<noteq> []"
  shows "\<exists>pre. split_sep (path_join d n) = pre @ [n]
             \<and> (split_sep d = pre \<or> split_sep d = pre @ [''''])"
proof (cases "last d = CHR ''/''")
  case True
  with d have dd: "d = butlast d @ ''/''" by (metis append_butlast_last_id)
  from n have hd: "hd n \<noteq> CHR ''/''" by (cases n) auto
  have "path_join d n = butlast d @ CHR ''/'' # n"
    using True d hd n(2) dd by (simp add: path_join_def)
  then have "split_sep (path_join d n) = split_sep (butlast d) @ [n]"
    using n(1) by (simp add: split_sep_snoc)
  moreover have "split_sep d = split_sep (butlast d) @ ['''']"
    using split_sep_append [of "butlast d" "[]"] dd by simp
  ultimately show ?thesis by blast
next
  case False
  from n have hd: "hd n \<noteq> CHR ''/''" by (cases n) auto
  have "path_join d n = d @ CHR ''/'' # n"
    using False d hd n(2) by (simp add: path_join_def)
  then have "split_sep (path_join d n) = split_sep d @ [n]"
    using n(1) by (simp add: split_sep_snoc)
  then show ?thesis by blast
qed

lemma walk_append:
  "walk h cur (xs @ ys) = (case walk h cur xs of None \<Rightarrow> None | Some q \<Rightarrow> walk h q ys)"
  by (induction xs arbitrary: cur) auto

lemma length_child: "c \<noteq> [] \<Longrightarrow> length cur < length (child cur c)"
  by (simp add: child_def)

lemma walk_mono:
  "''..'' \<notin> set cs \<Longrightarrow> walk h cur cs = Some q \<Longrightarrow> length cur \<le> length q"
proof (induction cs arbitrary: cur)
  case Nil
  then show ?case by simp
next
  case (Cons c cs)
  show ?case
  proof (cases "c = [] \<or> c = ''.''")
    case True
    with Cons.prems have "walk h cur cs = Some q" by (auto split: if_splits)
    with Cons.IH [of cur] Cons.prems(1) show ?thesis by simp
  next
    case False
    with Cons.prems have "walk h (child cur c) cs = Some q" by (auto split: if_splits)
    with Cons.IH [of "child cur c"] Cons.prems(1) have "length (child cur c) \<le> length q" by simp
    with length_child [of c cur] False show ?thesis by simp
  qed
qed

lemma walk_stable:
  assumes "''..'' \<notin> set cs" "walk h cur cs = Some q"
    and "\<And>a. length a \<le> length q \<Longrightarrow> node_kind h' a = node_kind h a"
  shows "walk h' cur cs = Some q"
  using assms(1,2)
proof (induction cs arbitrary: cur)
  case Nil
  then show ?case by simp
next
  case (Cons c cs)
  from Cons.prems have "length cur \<le> length q" by (rule walk_mono)
  then have k: "node_kind h' cur = node_kind h cur" by (rule assms(3))
  from Cons.prems(2) have dir: "node_kind h cur = Some Dir" by (auto split: if_splits)
  show ?case
  proof (cases "c = [] \<or> c = ''.''")
    case True
    with Cons.prems have "walk h cur cs = Some q" by (auto split: if_splits)
    with Cons.IH [of cur] Cons.prems(1) have "walk h' cur cs = Some q" by simp
    with True k dir show ?thesis by auto
  next
    case False
    with Cons.prems have "walk h (child cur c) cs = Some q" by (auto split: if_splits)
    with Cons.IH [of "child cur c"] Cons.prems(1) have "walk h' (child cur c) cs = Some q" by simp
    with False k dir Cons.prems(1) show ?thesis by auto
  qed
qed

lemma resolve_stable:
  assumes "''..'' \<notin> set (split_sep p)" "resolve h p = Some q" "cwd h' = cwd h"
    and "\<And>a. length a \<le> length q \<Longrightarrow> node_kind h' a = node_kind h a"
  shows "resolve h' p = Some q"
proof -
  from assms(2) have p: "p \<noteq> []" and w: "walk h (start h p) (split_sep p) = Some q"
    and k: "node_kind h q \<noteq> None"
    by (auto simp: resolve_def split: if_splits option.splits)
  have s: "start h' p = start h p" using assms(3) by (simp add: start_def)
  from assms(1) w assms(4) have "walk h' (start h p) (split_sep p) = Some q" by (rule walk_stable)
  moreover have "node_kind h' q = node_kind h q" by (rule assms(4)) simp
  ultimately show ?thesis using p k s by (simp add: resolve_def)
qed

text \<open>
  The entry with the name \<open>n\<close> of the directory that \<open>d\<close> names, under the path that
  \<^verbatim>\<open>os.path.join\<close> gives; the empty \<open>d\<close> is the current directory.
\<close>

lemma resolve_path_join:
  assumes d: "resolve h (if d = [] then ''.'' else d) = Some dn"
    and dir: "node_kind h dn = Some Dir"
    and n: "proper n" "CHR ''/'' \<notin> set n"
  shows "resolve h (path_join d n)
       = (if node_kind h (child dn n) = None then None else Some (child dn n))"
proof -
  from n have ne: "n \<noteq> []" and nd: "n \<noteq> ''.''" "n \<noteq> ''..''" by (auto simp: proper_def)
  from n(2) ne have hd: "hd n \<noteq> CHR ''/''" by (cases n) auto
  have step: "walk h q [n] = Some (child q n)" if "node_kind h q = Some Dir" for q
    using that ne nd by simp
  show ?thesis
  proof (cases "d = []")
    case True
    with d have w: "walk h (cwd h) [''.''] = Some dn"
      by (auto simp: resolve_def start_def is_abs_def split: option.splits if_splits)
    then have cdir: "node_kind h (cwd h) = Some Dir" and dn: "dn = cwd h"
      by (auto split: if_splits)
    have "path_join d n = n" using True by (simp add: path_join_def)
    moreover have "start h n = cwd h" using hd by (simp add: start_def is_abs_def)
    moreover have "split_sep n = [n]" using n(2) by (rule split_sep_single)
    ultimately show ?thesis using step [OF cdir] dn ne by (simp add: resolve_def)
  next
    case False
    with d have w: "walk h (start h d) (split_sep d) = Some dn" and k: "node_kind h dn \<noteq> None"
      by (auto simp: resolve_def split: option.splits if_splits)
    obtain pre where pre: "split_sep (path_join d n) = pre @ [n]"
        "split_sep d = pre \<or> split_sep d = pre @ ['''']"
      using split_sep_path_join [OF n(2) ne False] by blast
    have jn: "path_join d n \<noteq> []" using ne hd False by (auto simp: path_join_def)
    have "hd (path_join d n) = hd d" using False hd ne by (auto simp: path_join_def)
    then have st: "start h (path_join d n) = start h d"
      using jn False by (simp add: start_def is_abs_def)
    have "walk h (start h d) (pre @ [n]) = (if node_kind h dn = Some Dir then Some (child dn n) else None)"
    proof (cases "split_sep d = pre")
      case True
      with w show ?thesis using ne nd by (simp add: walk_append)
    next
      case False
      with pre(2) have "split_sep d = pre @ ['''']" by simp
      with w have "walk h (start h d) pre = Some dn \<and> node_kind h dn = Some Dir"
        by (auto simp: walk_append split: option.splits if_splits)
      then show ?thesis using ne nd by (simp add: walk_append)
    qed
    with dir have "walk h (start h (path_join d n)) (split_sep (path_join d n)) = Some (child dn n)"
      by (simp add: st pre(1))
    then show ?thesis using jn by (simp add: resolve_def)
  qed
qed

lemma child_inj: "child d n = child d m \<Longrightarrow> n = m"
  by (simp add: child_def split: if_splits)

lemma child_not_root: "n \<noteq> [] \<Longrightarrow> child d n \<noteq> ''/''"
  by (auto simp: child_def append_eq_Cons_conv)

lemma under_refl: "under p p"
  by (simp add: under_def)

lemma under_length: "under p q \<Longrightarrow> p \<noteq> ''/'' \<Longrightarrow> length p \<le> length q"
proof -
  assume u: "under p q" and r: "p \<noteq> ''/''"
  show ?thesis
  proof (cases "q = p")
    case True
    then show ?thesis by simp
  next
    case False
    with u r have "take (Suc (length p)) q = p @ ''/''" by (simp add: under_def)
    then have "length (take (Suc (length p)) q) = Suc (length p)" by simp
    then show ?thesis by simp
  qed
qed

text \<open>Two entries of one directory are not in each other's subtree.\<close>

lemma under_child:
  assumes "under (child d n) (child d m)" "n \<noteq> []" "CHR ''/'' \<notin> set m"
  shows "n = m"
proof (rule ccontr)
  assume neq: "n \<noteq> m"
  then have "child d m \<noteq> child d n" using child_inj by blast
  with assms(1) child_not_root [OF assms(2)]
  have t: "take (Suc (length (child d n))) (child d m) = child d n @ ''/''"
    by (simp add: under_def)
  have "take (Suc (length n)) m = n @ ''/''"
  proof (cases "d = ''/''")
    case True
    with t show ?thesis by (simp add: child_def)
  next
    case False
    with t show ?thesis by (simp add: child_def)
  qed
  then have "CHR ''/'' \<in> set (take (Suc (length n)) m)" by simp
  then have "CHR ''/'' \<in> set m" by (rule in_set_takeD)
  with assms(3) show False by simp
qed

lemma listdir_mem:
  assumes "n \<in> set (listdir h d dironly)"
  shows "\<exists>dn k. resolve h (if d = [] then ''.'' else d) = Some dn
             \<and> node_kind h dn = Some Dir \<and> (child dn n, k) \<in> set (nodes h)
             \<and> proper n \<and> CHR ''/'' \<notin> set n"
proof (cases "resolve h (if d = [] then ''.'' else d)")
  case None
  with assms show ?thesis by (simp add: listdir_def)
next
  case (Some dn)
  show ?thesis
  proof (cases "node_kind h dn = Some Dir")
    case False
    with Some assms show ?thesis by (simp add: listdir_def)
  next
    case True
    with Some assms
    have "n \<in> set (map (\<lambda>(q, k). last (split_sep q))
               (filter (\<lambda>(q, k). proper (last (split_sep q))
                               \<and> q = child dn (last (split_sep q))
                               \<and> (k = Dir \<or> \<not> dironly))
                 (nodes h)))"
      by (simp add: listdir_def)
    then have "n \<in> (\<lambda>(q, k). last (split_sep q)) `
               {x \<in> set (nodes h). case x of (q, k) \<Rightarrow> proper (last (split_sep q))
                               \<and> q = child dn (last (split_sep q))
                               \<and> (k = Dir \<or> \<not> dironly)}"
      by (simp only: set_map set_filter)
    then obtain x where x: "x \<in> set (nodes h)"
        "case x of (q, k) \<Rightarrow> proper (last (split_sep q))
                               \<and> q = child dn (last (split_sep q))
                               \<and> (k = Dir \<or> \<not> dironly)"
        "n = (case x of (q, k) \<Rightarrow> last (split_sep q))"
      by blast
    obtain q k where xq: "x = (q, k)" by (cases x)
    from x(3) have n: "n = last (split_sep q)" unfolding xq prod.case .
    from x(2) have "proper (last (split_sep q))" "q = child dn (last (split_sep q))"
      unfolding xq prod.case by blast+
    then have "proper n" "q = child dn n" unfolding n .
    with x(1) n have qk: "(q, k) \<in> set (nodes h)" "n = last (split_sep q)"
        "proper n" "q = child dn n"
      unfolding xq by blast+
    have "n \<in> set (split_sep q)" using qk(2) split_sep_not_Nil [of q] by simp
    then have nosep: "CHR ''/'' \<notin> set n" by (rule split_sep_nosep)
    have "(child dn n, k) \<in> set (nodes h)" using qk(1) qk(4) by simp
    with Some True qk(3) nosep show ?thesis by blast
  qed
qed

lemma glob1_subset: "set (glob1 h d b dironly) \<subseteq> set (listdir h d dironly)"
  by (auto simp: glob1_def)

subsection \<open>The generations that glob finds\<close>

lemma has_magic_append: "has_magic (xs @ ys) = (has_magic xs \<or> has_magic ys)"
  by (auto simp: has_magic_def list_ex_iff)

lemma all_same_replicate: "(\<forall>x\<in>set xs. x = a) \<Longrightarrow> xs = replicate (length xs) a"
  by (induction xs) auto

lemma rstrip_decomp: "\<exists>k. s = rstrip s ''/'' @ replicate k CHR ''/''"
proof -
  let ?t = "takeWhile (\<lambda>c. c \<in> set ''/'') (rev s)"
  have "\<forall>x\<in>set ?t. x = CHR ''/''" by (auto dest: set_takeWhileD)
  then have t: "?t = replicate (length ?t) CHR ''/''" by (rule all_same_replicate)
  have "rev s = ?t @ dropWhile (\<lambda>c. c \<in> set ''/'') (rev s)" by simp
  then have "s = rev (dropWhile (\<lambda>c. c \<in> set ''/'') (rev s)) @ rev ?t"
    by (metis rev_append rev_rev_ident)
  also have "rev ?t = replicate (length ?t) CHR ''/''" using t by (metis rev_replicate)
  finally show ?thesis unfolding rstrip_def by blast
qed

lemma has_magic_replicate: "\<not> has_magic (replicate k CHR ''/'')"
  by (simp add: has_magic_def list_ex_iff)

lemma has_magic_rstrip: "has_magic (rstrip s ''/'') = has_magic s"
proof -
  obtain k where "s = rstrip s ''/'' @ replicate k CHR ''/''" using rstrip_decomp by blast
  then have "has_magic s = has_magic (rstrip s ''/'' @ replicate k CHR ''/'')" by simp
  then show ?thesis by (simp add: has_magic_append has_magic_replicate)
qed

lemma has_magic_path_split:
  "has_magic p = (has_magic (fst (path_split p)) \<or> has_magic (snd (path_split p)))"
proof -
  let ?t = "rev (takeWhile (\<lambda>c. c \<noteq> CHR ''/'') (rev p))"
  let ?d = "rev (dropWhile (\<lambda>c. c \<noteq> CHR ''/'') (rev p))"
  have "rev p = rev ?t @ rev ?d" by simp
  then have "p = ?d @ ?t" by (metis rev_append rev_rev_ident)
  then have "has_magic p = (has_magic ?d \<or> has_magic ?t)" by (metis has_magic_append)
  moreover have "has_magic (fst (path_split p)) = has_magic ?d"
    by (simp add: path_split_def Let_def has_magic_rstrip)
  moreover have "snd (path_split p) = ?t" by (simp add: path_split_def Let_def)
  ultimately show ?thesis by simp
qed

lemma has_magic_search_glob: "has_magic (search_glob dest name tag)"
  by (simp add: search_glob_def path_join_def has_magic_append) (simp add: has_magic_def)

text \<open>
  When the directory part of the pattern has no wildcard, the generations are the
  matching entries of this one directory, each joined to the directory part.
\<close>

lemma glob_glob_plain:
  assumes "\<not> has_magic (fst (path_split (search_glob dest name tag)))"
  shows "glob_glob h (search_glob dest name tag)
       = map (path_join (fst (path_split (search_glob dest name tag))))
           (glob1 h (fst (path_split (search_glob dest name tag)))
              (snd (path_split (search_glob dest name tag))) False)"
proof -
  let ?p = "search_glob dest name tag"
  have m: "has_magic ?p" by (rule has_magic_search_glob)
  with assms have b: "has_magic (snd (path_split ?p))" using has_magic_path_split [of ?p] by simp
  show ?thesis
  proof (cases "fst (path_split ?p) = []")
    case True
    have "map (path_join []) xs = xs" for xs by (induction xs) (simp_all add: path_join_def)
    with True m show ?thesis by (simp add: glob_glob_def iglob.simps [of h ?p])
  next
    case False
    with m b assms show ?thesis by (simp add: glob_glob_def iglob.simps [of h ?p])
  qed
qed

subsection \<open>Removing entries of a directory\<close>

lemma map_of_filter_key:
  "map_of (filter (\<lambda>(q, k). P q) xs) a = (if P a then map_of xs a else None)"
  by (induction xs) auto

lemma node_kind_without:
  "node_kind (without ds h) a
     = (if a = ''/'' then Some Dir
        else if list_ex (\<lambda>d. inside h d a) ds then None else map_of (nodes h) a)"
  using map_of_filter_key [of "\<lambda>q. \<not> list_ex (\<lambda>d. inside h d q) ds" "nodes h" a]
  by (simp add: node_kind_def without_def)

lemma without_Nil: "without [] h = h"
  by (simp add: without_def case_prod_unfold)

text \<open>Removing entries of the directory \<open>dn\<close> changes nothing at \<open>dn\<close> and above it.\<close>

lemma without_small:
  assumes ents: "\<forall>d\<in>set ds. \<exists>m. m \<noteq> [] \<and> resolve h d = Some (child dn m)"
    and a: "length a \<le> length dn"
  shows "node_kind (without ds h) a = node_kind h a"
proof -
  have "\<not> inside h d a" if d: "d \<in> set ds" for d
  proof
    assume i: "inside h d a"
    from ents d obtain m where m: "m \<noteq> []" "resolve h d = Some (child dn m)" by blast
    from i m(2) have "under (child dn m) a" by (simp add: inside_def)
    then have "length (child dn m) \<le> length a"
      using child_not_root [OF m(1)] by (rule under_length)
    with length_child [OF m(1), of dn] a show False by simp
  qed
  then have "\<not> list_ex (\<lambda>d. inside h d a) ds" by (simp add: list_ex_iff)
  then show ?thesis unfolding node_kind_without by (simp add: node_kind_def)
qed

lemma inside_entries:
  assumes ents: "\<forall>d\<in>set ds. \<exists>m. m \<noteq> [] \<and> resolve h d = Some (child dn m)"
    and n: "CHR ''/'' \<notin> set n"
  shows "list_ex (\<lambda>d. inside h d (child dn n)) ds
       = (\<exists>d\<in>set ds. resolve h d = Some (child dn n))"
proof
  assume "list_ex (\<lambda>d. inside h d (child dn n)) ds"
  then obtain d where d: "d \<in> set ds" "inside h d (child dn n)" by (auto simp: list_ex_iff)
  from ents d(1) obtain m where m: "m \<noteq> []" "resolve h d = Some (child dn m)" by blast
  from d(2) m(2) have "under (child dn m) (child dn n)" by (simp add: inside_def)
  then have "m = n" using m(1) n by (rule under_child)
  with m(2) d(1) show "\<exists>d\<in>set ds. resolve h d = Some (child dn n)" by blast
next
  assume "\<exists>d\<in>set ds. resolve h d = Some (child dn n)"
  then obtain d where "d \<in> set ds" "inside h d (child dn n)"
    by (auto simp: inside_def under_refl)
  then show "list_ex (\<lambda>d. inside h d (child dn n)) ds" by (auto simp: list_ex_iff)
qed

lemma without_entry:
  assumes ents: "\<forall>d\<in>set ds. \<exists>m. m \<noteq> [] \<and> resolve h d = Some (child dn m)"
    and n: "n \<noteq> []" "CHR ''/'' \<notin> set n"
  shows "node_kind (without ds h) (child dn n)
       = (if \<exists>d\<in>set ds. resolve h d = Some (child dn n) then None
          else node_kind h (child dn n))"
  unfolding node_kind_without inside_entries [OF ents n(2)]
  using child_not_root [OF n(1), of dn] by (simp add: node_kind_def)

lemma resolve_base_without:
  assumes "resolve h d = Some dn" "''..'' \<notin> set (split_sep d)"
    and ents: "\<forall>d\<in>set ds. \<exists>m. m \<noteq> [] \<and> resolve h d = Some (child dn m)"
  shows "resolve (without ds h) d = Some dn"
proof -
  have "cwd (without ds h) = cwd h" by (simp add: without_def)
  moreover have "node_kind (without ds h) a = node_kind h a" if "length a \<le> length dn" for a
    using ents that by (rule without_small)
  ultimately show ?thesis using assms(1,2) resolve_stable by blast
qed

text \<open>
  The entries of the directory that \<open>d\<close> names, after some of them were removed: the
  path of an entry names what it named before, unless the entry was removed.
\<close>

lemma resolve_entry_without:
  assumes base: "resolve h (if d = [] then ''.'' else d) = Some dn" "node_kind h dn = Some Dir"
      "''..'' \<notin> set (split_sep (if d = [] then ''.'' else d))"
    and ents: "\<forall>d\<in>set ds. \<exists>m. m \<noteq> [] \<and> resolve h d = Some (child dn m)"
    and n: "proper n" "CHR ''/'' \<notin> set n"
  shows "resolve (without ds h) (path_join d n)
       = (if \<exists>x\<in>set ds. resolve h x = Some (child dn n) then None
          else resolve h (path_join d n))"
    and "node_kind (without ds h) (child dn n)
       = (if \<exists>x\<in>set ds. resolve h x = Some (child dn n) then None
          else node_kind h (child dn n))"
proof -
  from n(1) have ne: "n \<noteq> []" by (simp add: proper_def)
  have b1: "resolve (without ds h) (if d = [] then ''.'' else d) = Some dn"
    using base(1,3) ents by (rule resolve_base_without)
  have b2: "node_kind (without ds h) dn = Some Dir"
    using without_small [OF ents, of dn] base(2) by simp
  show k: "node_kind (without ds h) (child dn n)
       = (if \<exists>x\<in>set ds. resolve h x = Some (child dn n) then None
          else node_kind h (child dn n))"
    using ents ne n(2) by (rule without_entry)
  show "resolve (without ds h) (path_join d n)
       = (if \<exists>x\<in>set ds. resolve h x = Some (child dn n) then None
          else resolve h (path_join d n))"
    unfolding resolve_path_join [OF b1 b2 n] resolve_path_join [OF base(1,2) n] k by simp
qed

lemma removable_entry_without:
  assumes base: "resolve h (if d = [] then ''.'' else d) = Some dn" "node_kind h dn = Some Dir"
      "''..'' \<notin> set (split_sep (if d = [] then ''.'' else d))"
    and ents: "\<forall>d\<in>set ds. \<exists>m. m \<noteq> [] \<and> resolve h d = Some (child dn m)"
    and n: "proper n" "CHR ''/'' \<notin> set n"
    and no: "\<not> (\<exists>x\<in>set ds. resolve h x = Some (child dn n))"
  shows "removable (without ds h) (path_join d n) = removable h (path_join d n)"
proof -
  have "resolve (without ds h) (path_join d n) = resolve h (path_join d n)"
    using resolve_entry_without(1) [OF base ents n] no by simp
  moreover have "node_kind (without ds h) (child dn n) = node_kind h (child dn n)"
    using resolve_entry_without(2) [OF base ents n] no by simp
  moreover have "resolve h (path_join d n) = None \<or> resolve h (path_join d n) = Some (child dn n)"
    using resolve_path_join [OF base(1,2) n] by simp
  moreover have "denied (without ds h) = denied h" by (simp add: without_def)
  ultimately show ?thesis
    by (auto simp: removable_def isdir_def kind_of_def)
qed

lemma rmtree_ok:
  "removable h p \<Longrightarrow> shutil_rmtree p h = (Inr (), without [p] h)"
  by (auto simp: shutil_rmtree_def removable_def isdir_def kind_of_def without_def called_def
        inside_def Let_def split: option.splits)


lemma without_Cons:
  assumes "\<forall>x\<in>set ds. resolve (without [d] h) x = resolve h x"
  shows "without ds (without [d] h) = without (d # ds) h"
proof -
  have i: "inside (without [d] h) x q = inside h x q" if "x \<in> set ds" for x q
    using assms that by (simp add: inside_def)
  have "list_ex (\<lambda>x. inside (without [d] h) x q) ds = list_ex (\<lambda>x. inside h x q) ds" for q
    using i by (simp add: list_ex_iff)
  then show ?thesis
    by (simp add: without_def case_prod_unfold conj_commute)
qed

lemma removable_resolves:
  assumes base: "resolve h (if d = [] then ''.'' else d) = Some dn" "node_kind h dn = Some Dir"
    and n: "proper n" "CHR ''/'' \<notin> set n"
    and r: "isdir h (path_join d n)"
  shows "resolve h (path_join d n) = Some (child dn n)"
  using r resolve_path_join [OF base n]
  by (auto simp: isdir_def kind_of_def split: option.splits if_splits)

lemma rotate_loop_ok:
  assumes "resolve h (if d = [] then ''.'' else d) = Some dn" "node_kind h dn = Some Dir"
      "''..'' \<notin> set (split_sep (if d = [] then ''.'' else d))"
    and "distinct ns" "\<forall>n\<in>set ns. proper n \<and> CHR ''/'' \<notin> set n"
    and "list_all (removable h) (map (path_join d) ns)"
  shows "rotate_loop (map (path_join d) ns) h = (Inr (), without (map (path_join d) ns) h)"
  using assms
proof (induction ns arbitrary: h)
  case Nil
  then show ?case by (simp add: without_Nil)
next
  case (Cons n ns)
  let ?h1 = "without [path_join d n] h"
  from Cons.prems(5) have n: "proper n" "CHR ''/'' \<notin> set n" by simp_all
  then have ne: "n \<noteq> []" by (simp add: proper_def)
  from Cons.prems(6) have rn: "removable h (path_join d n)" by simp
  then have "isdir h (path_join d n)" by (simp add: removable_def)
  with Cons.prems(1,2) n have res: "resolve h (path_join d n) = Some (child dn n)"
    by (rule removable_resolves)
  with ne have ents: "\<forall>x\<in>set [path_join d n]. \<exists>m. m \<noteq> [] \<and> resolve h x = Some (child dn m)"
    by auto
  have b1: "resolve ?h1 (if d = [] then ''.'' else d) = Some dn"
    using Cons.prems(1,3) ents by (rule resolve_base_without)
  have b2: "node_kind ?h1 dn = Some Dir"
    using without_small [OF ents, of dn] Cons.prems(2) by simp
  have other: "\<not> (\<exists>x\<in>set [path_join d n]. resolve h x = Some (child dn m))"
    if "m \<in> set ns" for m
  proof -
    from that Cons.prems(4) have "m \<noteq> n" by auto
    then have "child dn n \<noteq> child dn m" using child_inj by blast
    with res show ?thesis by simp
  qed
  have same: "resolve ?h1 (path_join d m) = resolve h (path_join d m)" if m: "m \<in> set ns" for m
  proof -
    from m Cons.prems(5) have "proper m" "CHR ''/'' \<notin> set m" by simp_all
    with resolve_entry_without(1) [OF Cons.prems(1,2,3) ents] other [OF m] show ?thesis
      by simp
  qed
  have "list_all (removable ?h1) (map (path_join d) ns)"
    unfolding list_all_iff
  proof
    fix p assume "p \<in> set (map (path_join d) ns)"
    then obtain m where m: "m \<in> set ns" "p = path_join d m" by auto
    from m(1) Cons.prems(5) have pm: "proper m" "CHR ''/'' \<notin> set m" by simp_all
    from m Cons.prems(6) have "removable h (path_join d m)" by (simp add: list_all_iff)
    with removable_entry_without [OF Cons.prems(1,2,3) ents pm other [OF m(1)]] m(2)
    show "removable ?h1 p" by simp
  qed
  moreover from Cons.prems(4) have "distinct ns" by simp
  moreover from Cons.prems(5) have "\<forall>n\<in>set ns. proper n \<and> CHR ''/'' \<notin> set n" by simp
  ultimately have "rotate_loop (map (path_join d) ns) ?h1
                 = (Inr (), without (map (path_join d) ns) ?h1)"
    using b1 b2 Cons.prems(3) Cons.IH [of ?h1] by blast
  moreover have "without (map (path_join d) ns) ?h1 = without (path_join d n # map (path_join d) ns) h"
    by (rule without_Cons) (simp add: same)
  ultimately show ?case using rn by (simp add: rmtree_ok)
qed

subsection \<open>The generations after a removal\<close>

lemma plain_base: "plain d \<Longrightarrow> ''..'' \<notin> set (split_sep (if d = [] then ''.'' else d))"
  by (simp add: plain_def)

lemma list_in_image: "set ys \<subseteq> f ` A \<Longrightarrow> \<exists>xs. ys = map f xs \<and> set xs \<subseteq> A"
proof (induction ys)
  case Nil
  then show ?case by simp
next
  case (Cons y ys)
  then obtain xs where xs: "ys = map f xs" "set xs \<subseteq> A" by auto
  from Cons.prems obtain a where a: "a \<in> A" "y = f a" by auto
  with xs have "y # ys = map f (a # xs) \<and> set (a # xs) \<subseteq> A" by simp
  then show ?case by (rule exI)
qed

lemma listed_node_kind: "(q, k) \<in> set (nodes h) \<Longrightarrow> node_kind h q \<noteq> None"
  by (auto simp: node_kind_def dest: weak_map_of_SomeI)

text \<open>The path of a listed entry names the entry.\<close>

lemma listdir_resolve:
  assumes "n \<in> set (listdir h d False)"
  shows "\<exists>dn. resolve h (if d = [] then ''.'' else d) = Some dn \<and> node_kind h dn = Some Dir
            \<and> proper n \<and> CHR ''/'' \<notin> set n
            \<and> resolve h (path_join d n) = Some (child dn n)"
proof -
  from listdir_mem [OF assms] obtain dn k where
    dn: "resolve h (if d = [] then ''.'' else d) = Some dn" "node_kind h dn = Some Dir"
    and n: "(child dn n, k) \<in> set (nodes h)" "proper n" "CHR ''/'' \<notin> set n"
    by blast
  from n(1) have "node_kind h (child dn n) \<noteq> None" by (rule listed_node_kind)
  with resolve_path_join [OF dn n(2,3)] have "resolve h (path_join d n) = Some (child dn n)"
    by simp
  with dn n show ?thesis by blast
qed

lemma listdir_without:
  assumes nd: "''..'' \<notin> set (split_sep (if d = [] then ''.'' else d))"
    and sub: "set ds \<subseteq> path_join d ` set (listdir h d False)"
  shows "listdir (without ds h) d False
       = filter (\<lambda>n. path_join d n \<notin> set ds) (listdir h d False)"
proof (cases "listdir h d False = []")
  case True
  with sub have "ds = []" by simp
  with True show ?thesis by (simp add: without_Nil)
next
  case False
  then obtain n0 where "n0 \<in> set (listdir h d False)" by (cases "listdir h d False") auto
  from listdir_resolve [OF this] obtain dn where
    dn: "resolve h (if d = [] then ''.'' else d) = Some dn" "node_kind h dn = Some Dir"
    by blast
  have ent: "proper m \<and> CHR ''/'' \<notin> set m \<and> resolve h (path_join d m) = Some (child dn m)"
    if "m \<in> set (listdir h d False)" for m
    using listdir_resolve [OF that] dn(1) by auto
  have ents: "\<forall>x\<in>set ds. \<exists>m. m \<noteq> [] \<and> resolve h x = Some (child dn m)"
  proof
    fix x assume "x \<in> set ds"
    with sub obtain m where m: "m \<in> set (listdir h d False)" "x = path_join d m" by auto
    from ent [OF m(1)] have "m \<noteq> []" "resolve h (path_join d m) = Some (child dn m)"
      by (auto simp: proper_def)
    with m(2) show "\<exists>m. m \<noteq> [] \<and> resolve h x = Some (child dn m)" by blast
  qed
  have b1: "resolve (without ds h) (if d = [] then ''.'' else d) = Some dn"
    using dn(1) nd ents by (rule resolve_base_without)
  have b2: "node_kind (without ds h) dn = Some Dir"
    using without_small [OF ents, of dn] dn(2) by simp
  let ?name = "\<lambda>x. last (split_sep (fst x))"
  let ?P = "\<lambda>x. proper (?name x) \<and> fst x = child dn (?name x)"
  let ?R = "\<lambda>x. \<not> list_ex (\<lambda>d. inside h d (fst x)) ds"
  have ld: "listdir g d False = map ?name (filter ?P (nodes g))"
    if "resolve g (if d = [] then ''.'' else d) = Some dn" "node_kind g dn = Some Dir" for g
    using that by (simp add: listdir_def case_prod_unfold)
  have nodes': "nodes (without ds h) = filter ?R (nodes h)"
    by (simp add: without_def case_prod_unfold)
  have key: "?R x = (path_join d (?name x) \<notin> set ds)" if x: "x \<in> set (nodes h)" and p: "?P x" for x
  proof -
    let ?n = "?name x"
    from p have pn: "proper ?n" and q: "fst x = child dn ?n" by blast+
    have "?n \<in> set (split_sep (fst x))" using split_sep_not_Nil [of "fst x"] by simp
    then have nosep: "CHR ''/'' \<notin> set ?n" by (rule split_sep_nosep)
    from x have "(fst x, snd x) \<in> set (nodes h)" by simp
    then have "node_kind h (fst x) \<noteq> None" by (rule listed_node_kind)
    then have "node_kind h (child dn ?n) \<noteq> None" using q by metis
    with resolve_path_join [OF dn pn nosep]
    have rn: "resolve h (path_join d ?n) = Some (child dn ?n)" by simp
    have "list_ex (\<lambda>d. inside h d (child dn ?n)) ds
        = (\<exists>d\<in>set ds. resolve h d = Some (child dn ?n))"
      using ents nosep by (rule inside_entries)
    also have "\<dots> = (path_join d ?n \<in> set ds)"
    proof
      assume "\<exists>y\<in>set ds. resolve h y = Some (child dn ?n)"
      then obtain y where y: "y \<in> set ds" "resolve h y = Some (child dn ?n)" by blast
      from y(1) sub obtain m where m: "m \<in> set (listdir h d False)" "y = path_join d m" by auto
      from ent [OF m(1)] m(2) y(2) have "child dn m = child dn ?n" by simp
      then have "m = ?n" by (rule child_inj)
      with m(2) y(1) show "path_join d ?n \<in> set ds" by simp
    next
      assume "path_join d ?n \<in> set ds"
      with rn show "\<exists>y\<in>set ds. resolve h y = Some (child dn ?n)" by blast
    qed
    finally have "list_ex (\<lambda>d. inside h d (fst x)) ds = (path_join d ?n \<in> set ds)"
      using q by metis
    then show ?thesis by simp
  qed
  have "listdir (without ds h) d False = map ?name (filter ?P (filter ?R (nodes h)))"
    using ld [OF b1 b2] nodes' by simp
  also have "filter ?P (filter ?R (nodes h))
           = filter (\<lambda>x. path_join d (?name x) \<notin> set ds) (filter ?P (nodes h))"
    unfolding filter_filter by (rule filter_cong) (use key in auto)
  also have "map ?name (filter (\<lambda>x. path_join d (?name x) \<notin> set ds) (filter ?P (nodes h)))
           = filter (\<lambda>n. path_join d n \<notin> set ds) (map ?name (filter ?P (nodes h)))"
    by (simp add: filter_map comp_def)
  also have "map ?name (filter ?P (nodes h)) = listdir h d False"
    using ld [OF dn] by simp
  finally show ?thesis .
qed

lemma glob_mem:
  assumes "\<not> has_magic (fst (path_split (search_glob dest name tag)))"
  shows "set (glob_glob h (search_glob dest name tag))
       \<subseteq> path_join (fst (path_split (search_glob dest name tag)))
           ` set (listdir h (fst (path_split (search_glob dest name tag))) False)"
  unfolding glob_glob_plain [OF assms] using glob1_subset by fastforce

lemma glob_without:
  assumes pl: "plain (fst (path_split (search_glob dest name tag)))"
    and sub: "set ds \<subseteq> set (glob_glob h (search_glob dest name tag))"
  shows "glob_glob (without ds h) (search_glob dest name tag)
       = filter (\<lambda>q. q \<notin> set ds) (glob_glob h (search_glob dest name tag))"
proof -
  let ?d = "fst (path_split (search_glob dest name tag))"
  let ?b = "snd (path_split (search_glob dest name tag))"
  from pl have nm: "\<not> has_magic ?d" by (simp add: plain_def)
  from sub glob_mem [OF nm] have sub': "set ds \<subseteq> path_join ?d ` set (listdir h ?d False)"
    by blast
  have l: "listdir (without ds h) ?d False
         = filter (\<lambda>n. path_join ?d n \<notin> set ds) (listdir h ?d False)"
    using plain_base [OF pl] sub' by (rule listdir_without)
  have "glob1 (without ds h) ?d ?b False
      = filter (\<lambda>n. path_join ?d n \<notin> set ds) (glob1 h ?d ?b False)"
    unfolding glob1_def l by (auto simp: conj_commute intro: filter_cong)
  then show ?thesis
    unfolding glob_glob_plain [OF nm] by (simp add: filter_map comp_def)
qed

lemma distinct_listdir: "wf_host h \<Longrightarrow> distinct (listdir h d dironly)"
proof -
  assume wf: "wf_host h"
  show ?thesis
  proof (cases "resolve h (if d = [] then ''.'' else d)")
    case None
    then show ?thesis by (simp add: listdir_def)
  next
    case (Some dn)
    let ?name = "\<lambda>x. last (split_sep (fst x))"
    let ?P = "\<lambda>x. proper (?name x) \<and> fst x = child dn (?name x) \<and> (snd x = Dir \<or> \<not> dironly)"
    from wf have d: "distinct (map fst (nodes h))" by (simp add: wf_host_def)
    then have dn: "distinct (nodes h)" by (simp add: distinct_map)
    from d have inj: "inj_on fst (set (nodes h))" by (simp add: distinct_map)
    have "inj_on ?name (set (filter ?P (nodes h)))"
    proof (rule inj_onI)
      fix x y assume x: "x \<in> set (filter ?P (nodes h))" and y: "y \<in> set (filter ?P (nodes h))"
        and e: "?name x = ?name y"
      from x y have "fst x = child dn (?name x)" "fst y = child dn (?name y)" by simp_all
      with e have "fst x = fst y" by metis
      moreover from x y have "x \<in> set (nodes h)" "y \<in> set (nodes h)" by simp_all
      ultimately show "x = y" using inj by (meson inj_onD)
    qed
    with dn have "distinct (map ?name (filter ?P (nodes h)))"
      by (simp add: distinct_map)
    then show ?thesis using Some by (simp add: listdir_def case_prod_unfold)
  qed
qed

lemma path_join_inj:
  assumes "path_join d n = path_join d m" "n \<noteq> []" "CHR ''/'' \<notin> set n"
    "m \<noteq> []" "CHR ''/'' \<notin> set m"
  shows "n = m"
proof -
  from assms(2,3) have "hd n \<noteq> CHR ''/''" by (cases n) auto
  moreover from assms(4,5) have "hd m \<noteq> CHR ''/''" by (cases m) auto
  ultimately show ?thesis using assms(1) by (auto simp: path_join_def split: if_splits)
qed

lemma distinct_glob:
  assumes wf: "wf_host h" and nm: "\<not> has_magic (fst (path_split (search_glob dest name tag)))"
  shows "distinct (glob_glob h (search_glob dest name tag))"
proof -
  let ?d = "fst (path_split (search_glob dest name tag))"
  let ?b = "snd (path_split (search_glob dest name tag))"
  have "distinct (glob1 h ?d ?b False)"
    using distinct_listdir [OF wf] by (simp add: glob1_def)
  moreover have "inj_on (path_join ?d) (set (glob1 h ?d ?b False))"
  proof (rule inj_onI)
    fix n m assume n: "n \<in> set (glob1 h ?d ?b False)" and m: "m \<in> set (glob1 h ?d ?b False)"
      and e: "path_join ?d n = path_join ?d m"
    from n m glob1_subset have "n \<in> set (listdir h ?d False)" "m \<in> set (listdir h ?d False)"
      by blast+
    then have "proper n" "CHR ''/'' \<notin> set n" "proper m" "CHR ''/'' \<notin> set m"
      using listdir_mem by blast+
    with e show "n = m" by (auto simp: proper_def intro: path_join_inj)
  qed
  ultimately show ?thesis unfolding glob_glob_plain [OF nm] by (simp add: distinct_map)
qed

lemma filter_not_in_take:
  assumes "distinct xs"
  shows "filter (\<lambda>x. x \<notin> set (take m xs)) xs = drop m xs"
proof -
  have d: "distinct (take m xs @ drop m xs)" using assms by simp
  then have disj: "set (take m xs) \<inter> set (drop m xs) = {}" by (simp only: distinct_append)
  have "filter (\<lambda>x. x \<notin> set (take m xs)) xs
      = filter (\<lambda>x. x \<notin> set (take m xs)) (take m xs)
        @ filter (\<lambda>x. x \<notin> set (take m xs)) (drop m xs)"
    by (metis append_take_drop_id filter_append)
  moreover have "filter (\<lambda>x. x \<notin> set (take m xs)) (take m xs) = []"
    by (simp add: filter_empty_conv)
  moreover have "filter (\<lambda>x. x \<notin> set (take m xs)) (drop m xs) = drop m xs"
    using disj by (intro filter_True) auto
  ultimately show ?thesis by simp
qed

lemma slice_to_neg: "0 < k \<Longrightarrow> slice_to xs (- k) = take (length xs - nat k) xs"
proof -
  assume "0 < k"
  then have "nat (int (length xs) + - k) = length xs - nat k" by linarith
  with \<open>0 < k\<close> show ?thesis by (simp add: slice_to_def)
qed

lemma delete_list_take:
  "0 < keep \<Longrightarrow>
   delete_list h dest name tag keep
     = take (length (glob_glob h (search_glob dest name tag)) - nat keep)
         (sort (glob_glob h (search_glob dest name tag)))"
  by (simp add: delete_list_def slice_to_neg)

lemma delete_list_subset:
  "0 < keep \<Longrightarrow>
   set (delete_list h dest name tag keep) \<subseteq> set (glob_glob h (search_glob dest name tag))"
  using set_take_subset [of _ "sort (glob_glob h (search_glob dest name tag))"]
  by (simp add: delete_list_take)

lemma delete_list_distinct:
  assumes "0 < keep" "wf_host h" "\<not> has_magic (fst (path_split (search_glob dest name tag)))"
  shows "distinct (delete_list h dest name tag keep)"
proof -
  have "distinct (sort (glob_glob h (search_glob dest name tag)))"
    using assms(2,3) by (simp add: distinct_glob)
  then show ?thesis unfolding delete_list_take [OF assms(1)] by (rule distinct_take)
qed

text \<open>
  A list of generations as the names of entries of the one directory of the pattern.
\<close>

lemma generations_names:
  assumes nm: "plain (fst (path_split (search_glob dest name tag)))"
    and sub: "set ds \<subseteq> set (glob_glob h (search_glob dest name tag))"
    and ne: "ds \<noteq> []"
  shows "\<exists>dn ns. ds = map (path_join (fst (path_split (search_glob dest name tag)))) ns
      \<and> resolve h (if fst (path_split (search_glob dest name tag)) = [] then ''.''
                   else fst (path_split (search_glob dest name tag))) = Some dn
      \<and> node_kind h dn = Some Dir
      \<and> (\<forall>n\<in>set ns. proper n \<and> CHR ''/'' \<notin> set n
            \<and> resolve h (path_join (fst (path_split (search_glob dest name tag))) n)
                = Some (child dn n))"
proof -
  let ?d = "fst (path_split (search_glob dest name tag))"
  from nm have "\<not> has_magic ?d" by (simp add: plain_def)
  from sub glob_mem [OF this] have "set ds \<subseteq> path_join ?d ` set (listdir h ?d False)" by blast
  then obtain ns where ns: "ds = map (path_join ?d) ns" "set ns \<subseteq> set (listdir h ?d False)"
    using list_in_image by blast
  from ne ns(1) obtain n0 where "n0 \<in> set ns" by (cases ns) auto
  with ns(2) have "n0 \<in> set (listdir h ?d False)" by blast
  from listdir_resolve [OF this] obtain dn where
    dn: "resolve h (if ?d = [] then ''.'' else ?d) = Some dn" "node_kind h dn = Some Dir"
    by blast
  have "proper n \<and> CHR ''/'' \<notin> set n \<and> resolve h (path_join ?d n) = Some (child dn n)"
    if "n \<in> set ns" for n
  proof -
    from that ns(2) have "n \<in> set (listdir h ?d False)" by blast
    from listdir_resolve [OF this] dn(1) show ?thesis by auto
  qed
  with ns(1) dn show ?thesis by blast
qed

text \<open>
  When every entry of the delete list can be removed, \<^verbatim>\<open>rotate\<close> removes them all
  and returns.
\<close>

lemma rotate_deletes:
  assumes keep: "0 < keep"
    and wf: "wf_host h"
    and pl: "plain (fst (path_split (search_glob dest name tag)))"
    and rem: "list_all (removable h) (delete_list h dest name tag keep)"
  shows "rotate dest name tag keep h = (Inr (), without (delete_list h dest name tag keep) h)"
proof (cases "delete_list h dest name tag keep = []")
  case True
  with keep show ?thesis by (simp add: rotate_def without_Nil)
next
  case False
  let ?d = "fst (path_split (search_glob dest name tag))"
  let ?ds = "delete_list h dest name tag keep"
  have sub: "set ?ds \<subseteq> set (glob_glob h (search_glob dest name tag))"
    using keep by (rule delete_list_subset)
  from generations_names [OF pl sub False] obtain dn ns where
    ns: "?ds = map (path_join ?d) ns"
    and dn: "resolve h (if ?d = [] then ''.'' else ?d) = Some dn" "node_kind h dn = Some Dir"
    and pn: "\<forall>n\<in>set ns. proper n \<and> CHR ''/'' \<notin> set n
               \<and> resolve h (path_join ?d n) = Some (child dn n)"
    by blast
  from pl have "\<not> has_magic ?d" by (simp add: plain_def)
  with keep wf have "distinct ?ds" by (rule delete_list_distinct)
  then have dns: "distinct ns" unfolding ns by (simp add: distinct_map)
  from pn have pn': "\<forall>n\<in>set ns. proper n \<and> CHR ''/'' \<notin> set n" by blast
  from rem have rem': "list_all (removable h) (map (path_join ?d) ns)" unfolding ns .
  have "rotate_loop (map (path_join ?d) ns) h = (Inr (), without (map (path_join ?d) ns) h)"
    using dn plain_base [OF pl] dns pn' rem' by (rule rotate_loop_ok)
  then have "rotate_loop ?ds h = (Inr (), without ?ds h)" unfolding ns .
  with keep show ?thesis by (simp add: rotate_def)
qed





text \<open>What is left of the generations after the delete list is removed.\<close>

lemma glob_after_rotate:
  assumes keep: "0 < keep" and wf: "wf_host h"
    and pl: "plain (fst (path_split (search_glob dest name tag)))"
  shows "sort (glob_glob (without (delete_list h dest name tag keep) h) (search_glob dest name tag))
       = drop (length (glob_glob h (search_glob dest name tag)) - nat keep)
           (sort (glob_glob h (search_glob dest name tag)))"
proof -
  let ?pat = "search_glob dest name tag"
  let ?gens = "sort (glob_glob h ?pat)"
  let ?m = "length (glob_glob h ?pat) - nat keep"
  let ?ds = "delete_list h dest name tag keep"
  from pl have nm: "\<not> has_magic (fst (path_split ?pat))" by (simp add: plain_def)
  have ds: "?ds = take ?m ?gens" using keep by (rule delete_list_take)
  have dg: "distinct ?gens" using wf nm by (simp add: distinct_glob)
  have sub: "set ?ds \<subseteq> set (glob_glob h ?pat)" using keep by (rule delete_list_subset)
  have g': "glob_glob (without ?ds h) ?pat = filter (\<lambda>q. q \<notin> set ?ds) (glob_glob h ?pat)"
    using pl sub by (rule glob_without)
  have "sort (glob_glob (without ?ds h) ?pat) = filter (\<lambda>q. q \<notin> set ?ds) ?gens"
    by (simp add: g' filter_sort)
  also have "\<dots> = drop ?m ?gens"
    unfolding ds using dg by (rule filter_not_in_take)
  finally show ?thesis .
qed

text \<open>
  What \<^verbatim>\<open>rotate\<close> does with \<open>keep = k > 0\<close> when the delete list can be removed: it
  removes the entries of the sorted list of generations other than its last \<open>k\<close>, one
  \<^verbatim>\<open>rmtree\<close> each and in this order, and the generations left are the last \<open>k\<close> of
  the sorted list, \<open>min k n\<close> of them. The list is sorted by name.
\<close>

lemma rotate_keeps_last_of_sorted:
  assumes keep: "0 < keep"
    and wf: "wf_host h"
    and pl: "plain (fst (path_split (search_glob dest name tag)))"
    and rem: "list_all (removable h) (delete_list h dest name tag keep)"
  shows "\<exists>h'. rotate dest name tag keep h = (Inr (), h')
      \<and> delete_list h dest name tag keep
          = take (length (glob_glob h (search_glob dest name tag)) - nat keep)
              (sort (glob_glob h (search_glob dest name tag)))
      \<and> trace h' = trace h @ map Rmtree (delete_list h dest name tag keep)
      \<and> sort (glob_glob h' (search_glob dest name tag))
          = drop (length (glob_glob h (search_glob dest name tag)) - nat keep)
              (sort (glob_glob h (search_glob dest name tag)))
      \<and> length (glob_glob h' (search_glob dest name tag))
          = min (nat keep) (length (glob_glob h (search_glob dest name tag)))"
proof -
  let ?pat = "search_glob dest name tag"
  let ?ds = "delete_list h dest name tag keep"
  have rot: "rotate dest name tag keep h = (Inr (), without ?ds h)"
    using keep wf pl rem by (rule rotate_deletes)
  have ds: "?ds = take (length (glob_glob h ?pat) - nat keep) (sort (glob_glob h ?pat))"
    using keep by (rule delete_list_take)
  have srt: "sort (glob_glob (without ?ds h) ?pat)
           = drop (length (glob_glob h ?pat) - nat keep) (sort (glob_glob h ?pat))"
    using keep wf pl by (rule glob_after_rotate)
  have "length (glob_glob (without ?ds h) ?pat) = length (sort (glob_glob (without ?ds h) ?pat))"
    by simp
  also have "\<dots> = min (nat keep) (length (glob_glob h ?pat))"
    unfolding srt by simp
  finally have len: "length (glob_glob (without ?ds h) ?pat)
                   = min (nat keep) (length (glob_glob h ?pat))" .
  have tr: "trace (without ?ds h) = trace h @ map Rmtree ?ds"
    by (simp add: without_def)
  from rot ds tr srt len show ?thesis by blast
qed

subsection \<open>Rotation\<close>


text \<open>
  Claim C3, evaluated on the code: two runs on the same day, at eleven in the morning
  and at one in the afternoon, leave two generations, the second cloned from the
  first. \<^verbatim>\<open>rotate\<close> with \<open>keep = 1\<close> then removes the generation of the afternoon
  and keeps that of the morning: the list is sorted by name, and the name of the
  afternoon, with its hour on the 12-hour clock, is the smaller one.
\<close>

theorem rotate_removes_the_newer_generation:
  "tm_before ex_morning ex_afternoon
   \<and> snapshot_path ''/backup'' ''home'' ''daily'' ex_morning
       = ''/backup/snapback_home_20240101110000_daily''
   \<and> snapshot_path ''/backup'' ''home'' ''daily'' ex_afternoon
       = ''/backup/snapback_home_20240101010000_daily''
   \<and> nodes ex_two_runs
       = [(''/tmp'', Dir),
          (''/backup'', Dir),
          (''/backup/snapback_home_20240101110000_daily'', Dir),
          (''/backup/snapback_home_20240101110000_daily/_backup_20240101_110000'', File),
          (''/backup/snapback_home_20240101010000_daily'', Dir),
          (''/backup/snapback_home_20240101010000_daily/_backup_20240101_010000'', File)]
   \<and> delete_list ex_two_runs ''/backup'' ''home'' ''daily'' 1
       = [''/backup/snapback_home_20240101010000_daily'']
   \<and> view (rotate ''/backup'' ''home'' ''daily'' 1 ex_two_runs)
       = (Inr (),
          [(''/tmp'', Dir),
           (''/backup'', Dir),
           (''/backup/snapback_home_20240101110000_daily'', Dir),
           (''/backup/snapback_home_20240101110000_daily/_backup_20240101_110000'', File)],
          [Popen [''rsync'', ''-va'', ''--human-readable'', ''--delete'', ''--delete-excluded'',
                  ''/home/u/'', ''/backup/snapback_home_20240101110000_daily/''],
           Utime ''/backup/snapback_home_20240101110000_daily/'',
           Open_a ''/backup/snapback_home_20240101110000_daily/_backup_20240101_110000'',
           Utime ''/backup/snapback_home_20240101110000_daily/_backup_20240101_110000'',
           Popen [''cp'', ''-a'', ''-l'', ''/backup/snapback_home_20240101110000_daily'',
                  ''/backup/snapback_home_20240101010000_daily''],
           Popen [''rsync'', ''-va'', ''--human-readable'', ''--delete'', ''--delete-excluded'',
                  ''/home/u/'', ''/backup/snapback_home_20240101010000_daily/''],
           Utime ''/backup/snapback_home_20240101010000_daily/'',
           Open_a ''/backup/snapback_home_20240101010000_daily/_backup_20240101_010000'',
           Utime ''/backup/snapback_home_20240101010000_daily/_backup_20240101_010000'',
           Rmtree ''/backup/snapback_home_20240101010000_daily''])"
  by code_simp

text \<open>
  Claim C9. With \<open>keep \<le> 0\<close>, \<^verbatim>\<open>rotate\<close> returns at once: no call is made and the
  host, with every generation in it, is as before.
\<close>

theorem rotate_noop_when_keep_not_positive:
  "keep \<le> 0 \<Longrightarrow> rotate dest name tag keep h = (Inr (), h)"
  by (simp add: rotate_def)

theorem rotate_noop_when_keep_not_positive_witness:
  "rotate ''/backup'' ''home'' ''daily'' 0 ex_host = (Inr (), ex_host)
   \<and> rotate ''/backup'' ''home'' ''daily'' (- 1) ex_host = (Inr (), ex_host)"
  using rotate_noop_when_keep_not_positive [of 0 "''/backup''" "''home''" "''daily''" ex_host]
    rotate_noop_when_keep_not_positive [of "- 1" "''/backup''" "''home''" "''daily''" ex_host]
  by simp

subsection \<open>The calls of sync\<close>

























subsection \<open>The exit of main\<close>

lemma main_not_linux: "lower (system h) \<noteq> ''linux'' \<Longrightarrow> main proc a h = (Exit 1, h)"
  by (simp add: main_def)

lemma main_lock_refused:
  assumes "lower (system h) = ''linux''" "\<not> lock_taken a h"
  shows "fst (main proc a h) = Exit 1"
proof -
  obtain r1 h1 where o: "open_write (lock_path (args_name a)) h = (r1, h1)" by fastforce
  obtain r2 h2 where l: "fcntl_lockf (lock_path (args_name a)) h1 = (r2, h2)" by fastforce
  show ?thesis
  proof (cases r1)
    case (Inl e)
    with assms(1) o show ?thesis by (simp add: main_def)
  next
    case (Inr u)
    with assms(2) o l obtain e where "r2 = Inl e" by (cases r2) (auto simp: lock_taken_def)
    with assms(1) o l Inr show ?thesis by (simp add: main_def)
  qed
qed

lemma main_dest_not_directory:
  assumes "lower (system h) = ''linux''" "lock_taken a h"
    and "path_exists (after_lock a h) (args_dest a)" "\<not> isdir (after_lock a h) (args_dest a)"
  shows "fst (main proc a h) = Exit 1"
proof -
  obtain r1 h1 where o: "open_write (lock_path (args_name a)) h = (r1, h1)" by fastforce
  obtain r2 h2 where l: "fcntl_lockf (lock_path (args_name a)) h1 = (r2, h2)" by fastforce
  from assms(2) o l have "r1 = Inr ()" "r2 = Inr ()" by (simp_all add: lock_taken_def)
  moreover from o l have "after_lock a h = h2" by (simp add: after_lock_def)
  ultimately show ?thesis using assms(1,3,4) o l by (simp add: main_def)
qed

lemma main_reaches_run:
  assumes "lower (system h) = ''linux''" "lock_taken a h" "dest_ready a h"
  shows "main proc a h = main_run proc a (after_dest a h)"
proof -
  obtain r1 h1 where o: "open_write (lock_path (args_name a)) h = (r1, h1)" by fastforce
  obtain r2 h2 where l: "fcntl_lockf (lock_path (args_name a)) h1 = (r2, h2)" by fastforce
  from assms(2) o l have r: "r1 = Inr ()" "r2 = Inr ()" by (simp_all add: lock_taken_def)
  from o l have al: "after_lock a h = h2" by (simp add: after_lock_def)
  show ?thesis
  proof (cases "path_exists h2 (args_dest a)")
    case True
    with assms(3) al have "isdir h2 (args_dest a)" "after_dest a h = h2"
      by (simp_all add: dest_ready_def after_dest_def)
    with True assms(1) o l r show ?thesis by (simp add: main_def)
  next
    case False
    obtain r3 h3 where m: "os_makedirs (args_dest a) h2 = (r3, h3)" by fastforce
    with False assms(3) al have "r3 = Inr ()" "after_dest a h = h3"
      by (simp_all add: dest_ready_def after_dest_def)
    with False assms(1) o l r m show ?thesis by (simp add: main_def)
  qed
qed

lemma sync_mirror_result_nonneg:
  "sync_mirror proc source dest cur excl h = (Inr res, h') \<Longrightarrow> 0 \<le> res"
  by (auto simp: sync_mirror_def Let_def split: if_splits sum.splits prod.splits)

lemma sync_result_nonneg:
  "sync proc source dest name tag excludes h = (Inr res, h') \<Longrightarrow> 0 \<le> res"
  by (auto simp: sync_def Let_def split: if_splits sum.splits prod.splits
           dest: sync_mirror_result_nonneg)

lemma main_run_exit:
  assumes "fst (sync proc (args_source a) (args_dest a) (args_name a) (args_tag a)
                  (Some (args_excludes a)) h) = Inr res"
    and "fst (rotate (args_dest a) (args_name a) (args_tag a) (args_keep a)
               (snd (sync proc (args_source a) (args_dest a) (args_name a) (args_tag a)
                  (Some (args_excludes a)) h))) = Inr ()"
    and "fst (os_remove (lock_path (args_name a))
               (snd (rotate (args_dest a) (args_name a) (args_tag a) (args_keep a)
               (snd (sync proc (args_source a) (args_dest a) (args_name a) (args_tag a)
                  (Some (args_excludes a)) h))))) = Inr ()"
  shows "fst (main_run proc a h) = Exit res"
  using assms by (auto simp: main_run_def split: prod.splits sum.splits)

lemma main_run_Exit_sync:
  "fst (main_run proc a h) = Exit res \<Longrightarrow>
   fst (sync proc (args_source a) (args_dest a) (args_name a) (args_tag a)
          (Some (args_excludes a)) h) = Inr res"
  by (auto simp: main_run_def split: prod.splits sum.splits)

text \<open>
  Claim C5, amended. The exit status is 1 on a platform other than Linux, when the
  lock is not taken, and when the destination exists and is not a directory. A run
  that passes these checks and ends with \<^verbatim>\<open>sys.exit(res)\<close> has for \<open>res\<close> the result
  of \<^verbatim>\<open>sync\<close>: zero on success, else the positive return code of the cloning or
  mirroring command, and the exit status is \<open>res\<close> itself up to 255.
\<close>

theorem exit_status_by_cause:
  "(lower (system h) \<noteq> ''linux'' \<longrightarrow> exit_status (fst (main proc a h)) = 1)
   \<and> (lower (system h) = ''linux'' \<and> \<not> lock_taken a h
        \<longrightarrow> exit_status (fst (main proc a h)) = 1)
   \<and> (lower (system h) = ''linux'' \<and> lock_taken a h
        \<and> path_exists (after_lock a h) (args_dest a) \<and> \<not> isdir (after_lock a h) (args_dest a)
        \<longrightarrow> exit_status (fst (main proc a h)) = 1)
   \<and> (lower (system h) = ''linux'' \<and> lock_taken a h \<and> dest_ready a h
        \<and> fst (main proc a h) = Exit res
        \<longrightarrow> fst (sync proc (args_source a) (args_dest a) (args_name a) (args_tag a)
                  (Some (args_excludes a)) (after_dest a h)) = Inr res
            \<and> 0 \<le> res
            \<and> exit_status (fst (main proc a h)) = res mod 256
            \<and> (res \<le> 255 \<longrightarrow> exit_status (fst (main proc a h)) = res))"
proof (intro conjI impI)
  assume "lower (system h) \<noteq> ''linux''"
  then show "exit_status (fst (main proc a h)) = 1"
    by (simp add: main_not_linux exit_status_def)
next
  assume "lower (system h) = ''linux'' \<and> \<not> lock_taken a h"
  then show "exit_status (fst (main proc a h)) = 1"
    by (simp add: main_lock_refused exit_status_def)
next
  assume "lower (system h) = ''linux'' \<and> lock_taken a h
        \<and> path_exists (after_lock a h) (args_dest a) \<and> \<not> isdir (after_lock a h) (args_dest a)"
  then show "exit_status (fst (main proc a h)) = 1"
    by (simp add: main_dest_not_directory exit_status_def)
next
  assume a: "lower (system h) = ''linux'' \<and> lock_taken a h \<and> dest_ready a h
        \<and> fst (main proc a h) = Exit res"
  then have m: "main proc a h = main_run proc a (after_dest a h)"
    by (simp add: main_reaches_run)
  with a have e: "fst (main_run proc a (after_dest a h)) = Exit res" by simp
  then have s: "fst (sync proc (args_source a) (args_dest a) (args_name a) (args_tag a)
                  (Some (args_excludes a)) (after_dest a h)) = Inr res"
    by (rule main_run_Exit_sync)
  then have "sync proc (args_source a) (args_dest a) (args_name a) (args_tag a)
                  (Some (args_excludes a)) (after_dest a h)
      = (Inr res, snd (sync proc (args_source a) (args_dest a) (args_name a) (args_tag a)
                  (Some (args_excludes a)) (after_dest a h)))"
    by (metis prod.collapse)
  then have nn: "0 \<le> res" by (rule sync_result_nonneg)
  from s show "fst (sync proc (args_source a) (args_dest a) (args_name a) (args_tag a)
                  (Some (args_excludes a)) (after_dest a h)) = Inr res" .
  from nn show "0 \<le> res" .
  from a show "exit_status (fst (main proc a h)) = res mod 256"
    by (simp add: exit_status_def)
  {
    assume "res \<le> 255"
    with nn a show "exit_status (fst (main proc a h)) = res" by (simp add: exit_status_def)
  }
qed

lemma ex_darwin_not_linux: "lower (system ex_darwin) \<noteq> ''linux''"
  by code_simp

lemma ex_locked_refused:
  "lower (system ex_locked) = ''linux'' \<and> \<not> lock_taken (ex_args 0) ex_locked"
  by code_simp

lemma ex_file_dest_not_directory:
  "lower (system ex_file_dest) = ''linux'' \<and> lock_taken (ex_args 0) ex_file_dest
   \<and> path_exists (after_lock (ex_args 0) ex_file_dest) (args_dest (ex_args 0))
   \<and> \<not> isdir (after_lock (ex_args 0) ex_file_dest) (args_dest (ex_args 0))"
  by code_simp

lemma ex_host_passes:
  "lower (system ex_host) = ''linux'' \<and> lock_taken (ex_args 0) ex_host
   \<and> dest_ready (ex_args 0) ex_host"
  by code_simp

lemma ex_main_clean: "fst (main (ex_proc 0 0) (ex_args 0) ex_host) = Exit 0"
  by code_simp

lemma ex_main_cp_fails: "fst (main (ex_proc 3 0) (ex_args 0) ex_host) = Exit 3"
  by code_simp

theorem exit_status_by_cause_witness:
  "exit_status (fst (main (ex_proc 0 0) (ex_args 0) ex_darwin)) = 1
   \<and> exit_status (fst (main (ex_proc 0 0) (ex_args 0) ex_locked)) = 1
   \<and> exit_status (fst (main (ex_proc 0 0) (ex_args 0) ex_file_dest)) = 1
   \<and> exit_status (fst (main (ex_proc 0 0) (ex_args 0) ex_host)) = 0
   \<and> exit_status (fst (main (ex_proc 3 0) (ex_args 0) ex_host)) = 3"
proof -
  from exit_status_by_cause [of ex_darwin "ex_proc 0 0" "ex_args 0" 0] ex_darwin_not_linux
  have 1: "exit_status (fst (main (ex_proc 0 0) (ex_args 0) ex_darwin)) = 1" by blast
  from exit_status_by_cause [of ex_locked "ex_proc 0 0" "ex_args 0" 0] ex_locked_refused
  have 2: "exit_status (fst (main (ex_proc 0 0) (ex_args 0) ex_locked)) = 1" by blast
  from exit_status_by_cause [of ex_file_dest "ex_proc 0 0" "ex_args 0" 0]
    ex_file_dest_not_directory
  have 3: "exit_status (fst (main (ex_proc 0 0) (ex_args 0) ex_file_dest)) = 1" by blast
  from exit_status_by_cause [of ex_host "ex_proc 0 0" "ex_args 0" 0] ex_host_passes ex_main_clean
  have 4: "exit_status (fst (main (ex_proc 0 0) (ex_args 0) ex_host)) = 0" by force
  from exit_status_by_cause [of ex_host "ex_proc 3 0" "ex_args 0" 3] ex_host_passes ex_main_cp_fails
  have 5: "exit_status (fst (main (ex_proc 3 0) (ex_args 0) ex_host)) = 3" by force
  from 1 2 3 4 5 show ?thesis by blast
qed

text \<open>
  Claim C5 as stated fails: \<^verbatim>\<open>rsync\<close> ends with return code 23, \<^verbatim>\<open>sync\<close> returns it
  and \<^verbatim>\<open>main\<close> exits with it; the exit status is 23, not 1.
\<close>

theorem exit_status_is_return_code_of_rsync:
  "exit_status (fst (main (ex_proc 0 23) (ex_args 0) ex_host)) = 23"
  by code_simp

subsection \<open>Return codes\<close>

text \<open>When the cloning command ends with a positive return code, \<^verbatim>\<open>sync\<close> returns it at once.\<close>

lemma sync_clone_fails:
  assumes "glob_glob h (search_glob dest name tag) \<noteq> []"
    and "launch_command proc
           (cp_cmd (last (sort (glob_glob h (search_glob dest name tag))))
              (snapshot_path dest name tag (clock h))) h = (Inr result, h1)"
    and "0 < result"
  shows "sync proc source dest name tag excludes h = (Inr result, h1)"
proof -
  from assms(1) have "sort (glob_glob h (search_glob dest name tag)) \<noteq> []"
    by (metis set_empty set_sort)
  with assms(2,3) show ?thesis by (simp add: sync_def Let_def)
qed

text \<open>When the mirroring command ends with a positive return code, \<^verbatim>\<open>sync\<close> returns it.\<close>

lemma sync_mirror_fails:
  assumes "path_exists h dest"
    and "launch_command proc
           (rsync_cmd excl (normalize_source source) (current_snapshot @ ''/'')) h = (Inr result, h1)"
    and "0 < result"
  shows "sync_mirror proc source dest current_snapshot excl h = (Inr result, h1)"
  using assms by (simp add: sync_mirror_def Let_def)

text \<open>
  Claim C6, evaluated on the code: no generation exists, \<^verbatim>\<open>rsync\<close> is ended by
  signal 9, so its return code is \<open>- 9\<close>; \<^verbatim>\<open>sync\<close> goes on to the completion marker
  and returns 0.
\<close>

theorem sync_returns_zero_when_rsync_is_killed:
  "fst (launch_command (ex_proc 0 (- 9))
          (rsync_cmd [] ''/home/u/'' ''/backup/snapback_home_20240102093000_daily/'') ex_empty)
     = Inr (- 9)
   \<and> view (sync (ex_proc 0 (- 9)) ''/home/u'' ''/backup'' ''home'' ''daily'' (Some []) ex_empty)
     = (Inr 0,
        [(''/tmp'', Dir),
         (''/backup'', Dir),
         (''/backup/snapback_home_20240102093000_daily'', Dir),
         (''/backup/snapback_home_20240102093000_daily/_backup_20240102_093000'', File)],
        [Popen [''rsync'', ''-va'', ''--human-readable'', ''--delete'', ''--delete-excluded'',
                ''/home/u/'', ''/backup/snapback_home_20240102093000_daily/''],
         Utime ''/backup/snapback_home_20240102093000_daily/'',
         Open_a ''/backup/snapback_home_20240102093000_daily/_backup_20240102_093000'',
         Utime ''/backup/snapback_home_20240102093000_daily/_backup_20240102_093000''])"
  by code_simp

text \<open>
  Claim C8, evaluated on the code: \<^verbatim>\<open>cp\<close> is ended by signal 9, so its return code is
  \<open>- 9\<close>; \<^verbatim>\<open>sync\<close> starts \<^verbatim>\<open>rsync\<close> all the same, writes the completion marker and
  returns 0.
\<close>

theorem sync_mirrors_after_killed_clone:
  "fst (launch_command (ex_proc (- 9) 0)
          (cp_cmd ''/backup/snapback_home_20240101110000_daily''
                  ''/backup/snapback_home_20240102093000_daily'') ex_host)
     = Inr (- 9)
   \<and> view (sync (ex_proc (- 9) 0) ''/home/u'' ''/backup'' ''home'' ''daily'' (Some []) ex_host)
     = (Inr 0,
        [(''/tmp'', Dir),
         (''/backup'', Dir),
         (''/backup/snapback_home_20240101100000_daily'', Dir),
         (''/backup/snapback_home_20240101090000_daily'', Dir),
         (''/backup/snapback_home_20240101110000_daily'', Dir),
         (''/backup/snapback_home_20240101110000_weekly'', Dir),
         (''/backup/snapback_home_20240102093000_daily'', Dir),
         (''/backup/snapback_home_20240102093000_daily/_backup_20240102_093000'', File)],
        [Popen [''cp'', ''-a'', ''-l'', ''/backup/snapback_home_20240101110000_daily'',
                ''/backup/snapback_home_20240102093000_daily''],
         Popen [''rsync'', ''-va'', ''--human-readable'', ''--delete'', ''--delete-excluded'',
                ''/home/u/'', ''/backup/snapback_home_20240102093000_daily/''],
         Utime ''/backup/snapback_home_20240102093000_daily/'',
         Open_a ''/backup/snapback_home_20240102093000_daily/_backup_20240102_093000'',
         Utime ''/backup/snapback_home_20240102093000_daily/_backup_20240102_093000''])"
  by code_simp

subsection \<open>A removal that fails\<close>







subsection \<open>Rotation after a failed sync\<close>






end
